theory Spec2Isabelle
  imports Main "HOL-Library.Word"
begin

section \<open>The limiter of \<open>limiter/limiter.go\<close>\<close>

text \<open>
  The package runs a callback from \<open>Concurrency\<close> goroutines, each of which waits at a
  shared rate gate (\<open>rate.Limiter.Wait\<close>), checks the total query limit, bumps two
  counters and calls the callback. The model below keeps the struct as a record, the
  goroutines as control locations stepped one atomic action at a time by a schedule, and
  the outcome of every gate wait as an input of the schedule (the gate and its context
  are external: \<open>golang.org/x/time/rate\<close> and \<open>context\<close>).

  Shared memory is sequentially consistent here: an action of a goroutine takes effect
  at once and every goroutine sees it. A callback is a function of what it is given,
  the fields of the limiter at the call and the group id; state that a callback keeps
  of its own is not modelled.
\<close>

subsection \<open>Errors\<close>

text \<open>
  Go \<open>error\<close> values: the two sentinels of package \<open>context\<close>, compared by identity in
  the source, and any other error with its message (as made by \<open>errors.New\<close> or
  \<open>fmt.Errorf\<close>). A nil error is \<open>None\<close> of \<open>error option\<close>.
\<close>

datatype error = DeadlineExceeded | Canceled | Error string

fun error_Error :: "error \<Rightarrow> string" where
  "error_Error DeadlineExceeded = ''context deadline exceeded''"
| "error_Error Canceled = ''context canceled''"
| "error_Error (Error msg) = msg"

text \<open>\<open>strings.Contains(s, substr)\<close>: \<open>substr\<close> occurs in \<open>s\<close>.\<close>

fun strings_Contains :: "string \<Rightarrow> string \<Rightarrow> bool" where
  "strings_Contains [] substr = (substr = [])"
| "strings_Contains (c # s) substr =
     (take (length substr) (c # s) = substr \<or> strings_Contains s substr)"

text \<open>A run-time panic of an index expression on a slice: the index and the length.\<close>

datatype panic = IndexOutOfRange int nat

definition slice_index :: "'a list \<Rightarrow> int \<Rightarrow> panic + 'a" where
  "slice_index xs i =
     (if 0 \<le> i \<and> i < int (length xs) then Inr (xs ! nat i)
      else Inl (IndexOutOfRange i (length xs)))"

subsection \<open>Options, Limiter, CallbackParams\<close>

type_synonym uint32 = "32 word"

text \<open>
  \<open>time.Duration\<close> is a signed count of nanoseconds; the source only compares it with 0
  and stores differences of clock readings in it, so it is an \<open>int\<close> here, as are the
  readings of the monotonic clock (\<open>time.Now\<close>).
\<close>

type_synonym Duration = int
type_synonym Time = int

text \<open>The values the source stores in \<open>limContext\<close> and \<open>lim\<close>.\<close>

datatype Context = WithTimeout Duration | WithCancel

text \<open>\<open>rate.NewLimiter(r, b)\<close>: the rate (\<open>None\<close> is \<open>rate.Inf\<close>) and the burst.\<close>

datatype rate_Limiter = NewLimiter "uint32 option" nat

text \<open>
  The fields of \<open>struct Limiter\<close> other than the callback. A nil slice is the empty list
  (both have length 0 and no valid index); \<open>wg\<close> is the counter of the wait group;
  \<open>done\<close> is spelled \<open>done_flag\<close>. \<open>limCancelFunc\<close> has no field: cancelling shows only
  in what the gate returns.
\<close>

record limiter_fields =
  concurrency :: uint32
  limit :: uint32
  qps :: uint32
  duration :: Duration
  signalHandler :: bool
  lim :: "rate_Limiter option"
  limContext :: "Context option"
  counters :: "uint32 list"
  wg :: int
  start :: Time
  since :: Duration
  done_flag :: bool
  lastError :: "error option"
  isDeadline :: bool
  isCanceled :: bool
  isQueryLimit :: bool
  isRateError :: bool
  isCallbackError :: bool

text \<open>
  \<open>CallbackParams\<close>: the callback gets the limiter and its group id. The limiter's fields
  are unexported, so what the callback can read of it is the state of these fields at
  the call.
\<close>

record CallbackParams =
  Limiter :: limiter_fields
  GroupID :: int

type_synonym callback_func = "CallbackParams \<Rightarrow> error option"

record Limiter = limiter_fields +
  callback :: "callback_func option"

record Options =
  Concurrency :: uint32
  Limit :: uint32
  QPS :: uint32
  Duration :: Duration
  Callback :: "callback_func option"
  SignalHandler :: bool

subsection \<open>New\<close>

text \<open>
  \<open>New\<close> returns \<open>(nil, err)\<close> or \<open>(&limiter, nil)\<close>: a sum. Every field the struct
  literal does not name has its zero value.
\<close>

definition New :: "Options \<Rightarrow> error + Limiter" where
  "New o' =
     (let limiter = \<lparr>
            concurrency = Concurrency o',
            limit = Limit o',
            qps = QPS o',
            duration = Duration o',
            signalHandler = SignalHandler o',
            lim = None,
            limContext = None,
            counters = [],
            wg = 0,
            start = 0,
            since = 0,
            done_flag = False,
            lastError = None,
            isDeadline = False,
            isCanceled = False,
            isQueryLimit = False,
            isRateError = False,
            isCallbackError = False,
            callback = Callback o' \<rparr>
      in if 0 < Limit o' \<and> Limit o' < Concurrency o'
         then Inl (Error ''limit value must be greater than concurrency value'')
         else if Limit o' = 0 \<and> Duration o' = 0
         then Inl (Error ''set either limit or duration value'')
         else Inr limiter)"

subsection \<open>Accessors\<close>

text \<open>
  \<open>Since\<close> reads the clock when the run is not finished; the reading is a parameter.
\<close>

definition Since :: "Limiter \<Rightarrow> Time \<Rightarrow> Duration" where
  "Since limiter now =
     (if done_flag limiter then since limiter else now - start limiter)"

definition NumOfQueries :: "Limiter \<Rightarrow> panic + int" where
  "NumOfQueries limiter =
     (case slice_index (counters limiter) 0 of
        Inl p \<Rightarrow> Inl p
      | Inr c \<Rightarrow> Inr (uint c))"

definition NumOfQueriesByGroupID :: "Limiter \<Rightarrow> int \<Rightarrow> panic + int" where
  "NumOfQueriesByGroupID limiter id' =
     (if 0 < id' \<and> id' < int (length (counters limiter))
      then (case slice_index (counters limiter) id' of
              Inl p \<Rightarrow> Inl p
            | Inr c \<Rightarrow> Inr (uint c))
      else Inr 0)"

definition LastError :: "Limiter \<Rightarrow> error option" where
  "LastError limiter = lastError limiter"

definition IsDeadline :: "Limiter \<Rightarrow> bool" where
  "IsDeadline limiter = isDeadline limiter"

definition IsCanceled :: "Limiter \<Rightarrow> bool" where
  "IsCanceled limiter = isCanceled limiter"

definition IsQueryLimit :: "Limiter \<Rightarrow> bool" where
  "IsQueryLimit limiter = isQueryLimit limiter"

definition IsRateError :: "Limiter \<Rightarrow> bool" where
  "IsRateError limiter = isRateError limiter"

definition IsCallbackError :: "Limiter \<Rightarrow> bool" where
  "IsCallbackError limiter = isCallbackError limiter"

subsection \<open>Run: the goroutines\<close>

text \<open>
  Where a goroutine of the concurrency loop stands. Between two locations lies one
  action on the shared state:
  \<^item> \<open>AtWait\<close>: about to return from \<open>limiter.lim.Wait\<close> (line 132);
  \<^item> \<open>AtCheck\<close>: about to load \<open>counters[0]\<close> and compare it with the limit (line 146);
  \<^item> \<open>AtIncOwn\<close>: about to add 1 to \<open>counters[i]\<close> (line 153);
  \<^item> \<open>AtIncTotal\<close>: about to add 1 to \<open>counters[0]\<close> (line 154);
  \<^item> \<open>AtCallback\<close>: about to test and call the callback (lines 157-165);
  \<^item> \<open>Stopped c\<close>: left the loop after \<open>wg.Done()\<close>, by the exit \<open>c\<close>.
\<close>

datatype stop_cause = ByDeadline | ByCanceled | ByRateError | ByQueryLimit | ByCallbackError

datatype pc = AtWait | AtCheck | AtIncOwn | AtIncTotal | AtCallback | Stopped stop_cause

text \<open>
  The state of a run: the limiter, the location of goroutine \<open>i\<close> at \<open>pcs ! (i - 1)\<close>,
  and \<open>errlog\<close>, a history of the values written to \<open>lastError\<close>, oldest first. The
  history is not in the source and nothing reads it; it is there to say which write was
  the last.
\<close>

record run_state =
  limiter :: Limiter
  pcs :: "pc list"
  errlog :: "error list"

text \<open>
  One entry of a schedule: the goroutine that moves, and what \<open>lim.Wait\<close> returns to it
  if it stands at \<open>AtWait\<close> (\<open>None\<close> is nil: admitted).
\<close>

type_synonym event = "nat \<times> error option"

definition goto :: "nat \<Rightarrow> pc \<Rightarrow> run_state \<Rightarrow> run_state" where
  "goto i p s = s\<lparr>pcs := (pcs s)[i - 1 := p]\<rparr>"

text \<open>\<open>limiter.wg.Done()\<close> followed by \<open>break\<close> or \<open>return\<close>.\<close>

definition wg_Done_exit :: "nat \<Rightarrow> stop_cause \<Rightarrow> run_state \<Rightarrow> run_state" where
  "wg_Done_exit i c s =
     goto i (Stopped c) (s\<lparr>limiter := (limiter s)\<lparr>wg := wg (limiter s) - 1\<rparr>\<rparr>)"

text \<open>Lines 133-144: \<open>lim.Wait\<close> has returned \<open>err\<close>, not nil.\<close>

definition wait_failed :: "nat \<Rightarrow> error \<Rightarrow> run_state \<Rightarrow> run_state" where
  "wait_failed i err s =
     (if err = DeadlineExceeded \<or> strings_Contains (error_Error err) ''context deadline''
      then wg_Done_exit i ByDeadline (s\<lparr>limiter := (limiter s)\<lparr>isDeadline := True\<rparr>\<rparr>)
      else if err = Canceled
      then wg_Done_exit i ByCanceled (s\<lparr>limiter := (limiter s)\<lparr>isCanceled := True\<rparr>\<rparr>)
      else wg_Done_exit i ByRateError
             (s\<lparr>limiter := (limiter s)\<lparr>isRateError := True, lastError := Some err\<rparr>,
                errlog := errlog s @ [err]\<rparr>))"

text \<open>Lines 146-150.\<close>

definition check_limit :: "nat \<Rightarrow> run_state \<Rightarrow> run_state" where
  "check_limit i s =
     (if 0 < limit (limiter s) \<and> limit (limiter s) \<le> counters (limiter s) ! 0
      then wg_Done_exit i ByQueryLimit (s\<lparr>limiter := (limiter s)\<lparr>isQueryLimit := True\<rparr>\<rparr>)
      else goto i AtIncOwn s)"

text \<open>\<open>atomic.AddUint32(&limiter.counters[k], 1)\<close>: the sum wraps at 32 bits.\<close>

definition AddUint32 :: "nat \<Rightarrow> run_state \<Rightarrow> run_state" where
  "AddUint32 k s =
     s\<lparr>limiter := (limiter s)\<lparr>counters :=
          (counters (limiter s))[k := counters (limiter s) ! k + 1]\<rparr>\<rparr>"

text \<open>Lines 157-165.\<close>

definition call_callback :: "nat \<Rightarrow> run_state \<Rightarrow> run_state" where
  "call_callback i s =
     (case callback (limiter s) of
        None \<Rightarrow> goto i AtWait s
      | Some cb \<Rightarrow>
          (case cb \<lparr>Limiter = limiter_fields.truncate (limiter s), GroupID = int i\<rparr> of
             None \<Rightarrow> goto i AtWait s
           | Some err \<Rightarrow>
               wg_Done_exit i ByCallbackError
                 (s\<lparr>limiter := (limiter s)\<lparr>isCallbackError := True, lastError := Some err\<rparr>,
                    errlog := errlog s @ [err]\<rparr>)))"

text \<open>
  One action of goroutine \<open>i\<close>. The loop of line 127 starts the goroutines 1 to
  \<open>concurrency\<close>; an entry for any other number, or for a goroutine that has stopped,
  changes nothing. The assignments of an exit (a flag, \<open>lastError\<close>) and its
  \<open>wg.Done()\<close> are one action: the loop reads none of these fields, and \<open>Run\<close> reads
  them only after \<open>wg.Wait()\<close>.
\<close>

definition worker_step :: "event \<Rightarrow> run_state \<Rightarrow> run_state" where
  "worker_step ev s =
     (let i = fst ev in
      if i < 1 \<or> length (pcs s) < i then s
      else case pcs s ! (i - 1) of
             AtWait \<Rightarrow> (case snd ev of None \<Rightarrow> goto i AtCheck s | Some err \<Rightarrow> wait_failed i err s)
           | AtCheck \<Rightarrow> check_limit i s
           | AtIncOwn \<Rightarrow> goto i AtIncTotal (AddUint32 i s)
           | AtIncTotal \<Rightarrow> goto i AtCallback (AddUint32 0 s)
           | AtCallback \<Rightarrow> call_callback i s
           | Stopped c \<Rightarrow> s)"

fun run_workers :: "event list \<Rightarrow> run_state \<Rightarrow> run_state" where
  "run_workers [] s = s"
| "run_workers (ev # evs) s = run_workers evs (worker_step ev s)"

subsection \<open>Run: the coordinator\<close>

text \<open>
  Lines 95-126, up to the start of the goroutines; \<open>now\<close> is the reading of line 117.
  The deferred cancel and the signal handler of lines 104-111 write no field: what they
  do to the context shows in what the gate returns.
\<close>

definition Run_begin :: "Limiter \<Rightarrow> Time \<Rightarrow> run_state" where
  "Run_begin l now =
     \<lparr>limiter = l\<lparr>
        limContext := Some (if 0 < duration l then WithTimeout (duration l) else WithCancel),
        wg := wg l + int (unat (concurrency l)),
        start := now,
        lim := Some (if 0 < qps l then NewLimiter (Some (qps l)) 1 else NewLimiter None 0),
        counters := replicate (unat (concurrency l) + 1) 0\<rparr>,
      pcs = replicate (unat (concurrency l)) AtWait,
      errlog = []\<rparr>"

text \<open>
  Lines 169-173. \<open>wg.Wait()\<close> returns only when the counter of the wait group is 0;
  \<open>None\<close> says that it still blocks. \<open>now\<close> is the reading of line 170.
\<close>

definition Run_end :: "run_state \<Rightarrow> Time \<Rightarrow> (error option \<times> Limiter) option" where
  "Run_end s now =
     (if wg (limiter s) = 0
      then (let l = (limiter s)\<lparr>since := now - start (limiter s), done_flag := True\<rparr>
            in Some (lastError l, l))
      else None)"

text \<open>
  \<open>Run\<close> under a schedule: the error it returns and the limiter it leaves, or \<open>None\<close>
  when the goroutines have not all stopped by the end of the schedule.
\<close>

definition Run :: "Limiter \<Rightarrow> Time \<Rightarrow> event list \<Rightarrow> Time \<Rightarrow> (error option \<times> Limiter) option" where
  "Run l t0 sched t1 = Run_end (run_workers sched (Run_begin l t0)) t1"

subsection \<open>Observations on a run\<close>

text \<open>Classes of control locations, and how many goroutines stand in one.\<close>

fun running :: "pc \<Rightarrow> bool" where
  "running (Stopped c) = False"
| "running p = True"

text \<open>Past the limit check of line 146, before the addition to \<open>counters[0]\<close>.\<close>

fun past_check :: "pc \<Rightarrow> bool" where
  "past_check AtIncOwn = True"
| "past_check AtIncTotal = True"
| "past_check p = False"

text \<open>Between the two additions of lines 153 and 154.\<close>

fun between_adds :: "pc \<Rightarrow> bool" where
  "between_adds AtIncTotal = True"
| "between_adds p = False"

text \<open>Stopped by an exit that writes \<open>lastError\<close>.\<close>

fun stopped_with_error :: "pc \<Rightarrow> bool" where
  "stopped_with_error (Stopped ByRateError) = True"
| "stopped_with_error (Stopped ByCallbackError) = True"
| "stopped_with_error p = False"

text \<open>Has added to \<open>counters[0]\<close> in its current iteration.\<close>

fun past_adds :: "pc \<Rightarrow> bool" where
  "past_adds AtCallback = True"
| "past_adds (Stopped ByCallbackError) = True"
| "past_adds p = False"

text \<open>
  An upper bound on the actions a goroutine has left when its callback fails at the
  first call.
\<close>

fun steps_left :: "pc \<Rightarrow> nat" where
  "steps_left AtWait = 5"
| "steps_left AtCheck = 4"
| "steps_left AtIncOwn = 3"
| "steps_left AtIncTotal = 2"
| "steps_left AtCallback = 1"
| "steps_left (Stopped c) = 0"

definition count_pcs :: "(pc \<Rightarrow> bool) \<Rightarrow> run_state \<Rightarrow> nat" where
  "count_pcs P s = length (filter P (pcs s))"

text \<open>How often goroutine \<open>i\<close> is scheduled.\<close>

definition turns :: "nat \<Rightarrow> event list \<Rightarrow> nat" where
  "turns i sched = length (filter (\<lambda>ev. fst ev = i) sched)"

subsection \<open>What a run receives\<close>

text \<open>
  What the outside hands to a goroutine on the way to an exit of the loop: a wait at the
  gate that returns an error (line 133), a total that has reached the limit when the
  goroutine loads it (line 146), a call of the callback that returns an error
  (line 159). Each carries the number of the goroutine. \<open>observe\<close> reads them off the
  schedule entry and the state before the action, and takes nothing from what the
  action then does.
\<close>

datatype observation = GateFailed nat error | LimitReached nat | CallbackFailed nat error

definition observe :: "event \<Rightarrow> run_state \<Rightarrow> observation list" where
  "observe ev s =
     (let i = fst ev in
      if i < 1 \<or> length (pcs s) < i then []
      else case pcs s ! (i - 1) of
             AtWait \<Rightarrow> (case snd ev of None \<Rightarrow> [] | Some err \<Rightarrow> [GateFailed i err])
           | AtCheck \<Rightarrow>
               (if 0 < limit (limiter s) \<and> limit (limiter s) \<le> counters (limiter s) ! 0
                then [LimitReached i] else [])
           | AtIncOwn \<Rightarrow> []
           | AtIncTotal \<Rightarrow> []
           | AtCallback \<Rightarrow>
               (case callback (limiter s) of
                  None \<Rightarrow> []
                | Some cb \<Rightarrow>
                    (case cb \<lparr>Limiter = limiter_fields.truncate (limiter s), GroupID = int i\<rparr> of
                       None \<Rightarrow> []
                     | Some err \<Rightarrow> [CallbackFailed i err]))
           | Stopped c \<Rightarrow> [])"

fun observations :: "event list \<Rightarrow> run_state \<Rightarrow> observation list" where
  "observations [] s = []"
| "observations (ev # evs) s = observe ev s @ observations evs (worker_step ev s)"

text \<open>
  An error that stands for the deadline: the sentinel \<open>context.DeadlineExceeded\<close>, or any
  error whose message has \<open>context deadline\<close> in it.
\<close>

definition deadline_shaped :: "error \<Rightarrow> bool" where
  "deadline_shaped err \<longleftrightarrow>
     err = DeadlineExceeded \<or> (\<exists>p q. error_Error err = p @ ''context deadline'' @ q)"

text \<open>
  The errors that count as failures, in the order received: a gate error that stands
  neither for the deadline nor for a cancellation, and every callback error.
\<close>

fun recorded :: "observation \<Rightarrow> error list" where
  "recorded (GateFailed i err) = (if deadline_shaped err \<or> err = Canceled then [] else [err])"
| "recorded (LimitReached i) = []"
| "recorded (CallbackFailed i err) = [err]"

definition failures :: "observation list \<Rightarrow> error list" where
  "failures obs = concat (map recorded obs)"

text \<open>The goroutine that an observation stops, and the exit it is to take.\<close>

fun stop_of :: "observation \<Rightarrow> nat \<times> stop_cause" where
  "stop_of (GateFailed i err) =
     (i, if deadline_shaped err then ByDeadline
         else if err = Canceled then ByCanceled else ByRateError)"
| "stop_of (LimitReached i) = (i, ByQueryLimit)"
| "stop_of (CallbackFailed i err) = (i, ByCallbackError)"

subsection \<open>Invariants of a run\<close>

text \<open>The slice has a slot for the total and one for each goroutine.\<close>

definition shape :: "run_state \<Rightarrow> bool" where
  "shape s \<longleftrightarrow> length (counters (limiter s)) = length (pcs s) + 1"

text \<open>The wait group counts the goroutines that have not stopped.\<close>

definition wg_counts :: "run_state \<Rightarrow> bool" where
  "wg_counts s \<longleftrightarrow> wg (limiter s) = int (count_pcs running s)"

text \<open>
  The total, plus the goroutines that passed the check and have yet to add to it, stays
  below the limit plus the number of goroutines.
\<close>

definition soft_cap :: "run_state \<Rightarrow> bool" where
  "soft_cap s \<longleftrightarrow>
     counters (limiter s) \<noteq> [] \<and>
     unat (counters (limiter s) ! 0) + count_pcs past_check s + 1
       \<le> unat (limit (limiter s)) + length (pcs s)"

text \<open>
  The slots of the goroutines add up, in 32-bit arithmetic, to the total plus one for
  each goroutine between its two additions.
\<close>

definition slots_sum :: "run_state \<Rightarrow> bool" where
  "slots_sum s \<longleftrightarrow>
     sum_list (tl (counters (limiter s))) =
       counters (limiter s) ! 0 + of_nat (count_pcs between_adds s)"

text \<open>
  \<open>lastError\<close> holds the last value written to it, one value was written for each
  goroutine that stopped on a gate error or a callback error, and the two error flags
  say which of these exits were taken.
\<close>

definition errors_logged :: "run_state \<Rightarrow> bool" where
  "errors_logged s \<longleftrightarrow>
     lastError (limiter s) = (if errlog s = [] then None else Some (last (errlog s))) \<and>
     length (errlog s) = count_pcs stopped_with_error s \<and>
     (isRateError (limiter s) \<longleftrightarrow> 0 < count_pcs (\<lambda>p. p = Stopped ByRateError) s) \<and>
     (isCallbackError (limiter s) \<longleftrightarrow> 0 < count_pcs (\<lambda>p. p = Stopped ByCallbackError) s)"

text \<open>
  For a run whose callback fails at every call: the total counts the goroutines that
  have made both additions, the limit (if any) is at least the number of goroutines, and
  the callback is set and never returns nil.
\<close>

definition one_shot :: "run_state \<Rightarrow> bool" where
  "one_shot s \<longleftrightarrow>
     counters (limiter s) \<noteq> [] \<and>
     unat (counters (limiter s) ! 0) = count_pcs past_adds s \<and>
     (limit (limiter s) = 0 \<or> length (pcs s) \<le> unat (limit (limiter s))) \<and>
     length (pcs s) < 2 ^ 32 \<and>
     (\<exists>cb. callback (limiter s) = Some cb \<and> (\<forall>cbp. cb cbp \<noteq> None))"

text \<open>
  For a run in which the gate admits every wait: no goroutine has stopped but on an
  error of the callback \<open>cb\<close>, and every error written is one that \<open>cb\<close> returns.
\<close>

definition admitted_only :: "callback_func \<Rightarrow> run_state \<Rightarrow> bool" where
  "admitted_only cb s \<longleftrightarrow>
     count_pcs (\<lambda>p. \<not> running p \<and> p \<noteq> Stopped ByCallbackError) s = 0 \<and>
     list_all (\<lambda>e. \<exists>cbp. cb cbp = Some e) (errlog s)"

text \<open>
  For a run whose callback fails at every call: the slot of a goroutine reads 1 once the
  goroutine has added to it, and 0 before.
\<close>

fun past_own :: "pc \<Rightarrow> bool" where
  "past_own AtIncTotal = True"
| "past_own AtCallback = True"
| "past_own (Stopped ByCallbackError) = True"
| "past_own p = False"

definition own_slot :: "run_state \<Rightarrow> bool" where
  "own_slot s \<longleftrightarrow>
     (\<forall>k < length (pcs s).
        counters (limiter s) ! Suc k = (if past_own (pcs s ! k) then 1 else 0))"

subsection \<open>Sample inputs\<close>

definition mk_options :: "uint32 \<Rightarrow> uint32 \<Rightarrow> Duration \<Rightarrow> callback_func option \<Rightarrow> Options" where
  "mk_options n k d cb =
     \<lparr>Concurrency = n, Limit = k, QPS = 0, Duration = d, Callback = cb,
      SignalHandler = False\<rparr>"

text \<open>A callback that returns the same error at every call.\<close>

definition always_fails :: "error \<Rightarrow> callback_func" where
  "always_fails e = (\<lambda>cbp. Some e)"

text \<open>The limiter that \<open>New\<close> returns for sample options.\<close>

definition sample_limiter :: "uint32 \<Rightarrow> uint32 \<Rightarrow> Duration \<Rightarrow> callback_func option \<Rightarrow> Limiter" where
  "sample_limiter n k d cb = projr (New (mk_options n k d cb))"

text \<open>
  A schedule for two goroutines and limit 2: goroutine 1 completes one iteration and
  passes the check again, goroutine 2 passes the check at the same total, then both add.
\<close>

definition overshoot_schedule :: "event list" where
  "overshoot_schedule =
     replicate 7 (1, None) @ replicate 2 (2, None) @ replicate 5 (1, None) @
     replicate 5 (2, None)"

text \<open>A callback that fails at every call, with an error that names its group.\<close>

definition fails_by_group :: callback_func where
  "fails_by_group cbp = Some (Error (if GroupID cbp = 1 then ''one'' else ''two''))"

text \<open>
  A schedule for two goroutines: the gate fails for goroutine 1 with an error that is
  neither a deadline nor a cancellation, then goroutine 2 runs up to its callback.
\<close>

definition gate_then_callback_schedule :: "event list" where
  "gate_then_callback_schedule = (1, Some (Error ''gate broke'')) # replicate 5 (2, None)"

text \<open>
  A schedule for three goroutines: the gate returns the deadline sentinel to the first,
  the cancellation sentinel to the second, and to the third the error that
  \<open>rate.Limiter.Wait\<close> makes when the wait would pass the deadline.
\<close>

definition expected_stops_schedule :: "event list" where
  "expected_stops_schedule =
     [(1, Some DeadlineExceeded), (2, Some Canceled),
      (3, Some (Error ''rate: Wait(n=1) would exceed context deadline''))]"

section \<open>Stepping a run\<close>

lemma worker_step_frame:
  "concurrency (limiter (worker_step ev s)) = concurrency (limiter s)"
  "limit (limiter (worker_step ev s)) = limit (limiter s)"
  "callback (limiter (worker_step ev s)) = callback (limiter s)"
  "start (limiter (worker_step ev s)) = start (limiter s)"
  "since (limiter (worker_step ev s)) = since (limiter s)"
  "done_flag (limiter (worker_step ev s)) = done_flag (limiter s)"
  "length (pcs (worker_step ev s)) = length (pcs s)"
  "length (counters (limiter (worker_step ev s))) = length (counters (limiter s))"
  by (simp_all add: worker_step_def wg_Done_exit_def wait_failed_def check_limit_def
      AddUint32_def call_callback_def goto_def Let_def split: pc.split option.split)

lemma run_workers_induct:
  assumes "P s" and "\<And>ev s. P s \<Longrightarrow> P (worker_step ev s)"
  shows "P (run_workers evs s)"
  using assms(1) by (induction evs arbitrary: s) (simp_all add: assms(2))

lemma length_filter_update:
  "k < length xs \<Longrightarrow>
     length (filter P (xs[k := y])) + (if P (xs ! k) then 1 else 0) =
     length (filter P xs) + (if P y then 1 else 0)"
proof (induction xs arbitrary: k)
  case Nil
  then show ?case by simp
next
  case (Cons x xs)
  then show ?case by (cases k) auto
qed

lemma count_pcs_goto:
  "1 \<le> i \<Longrightarrow> i \<le> length (pcs s) \<Longrightarrow>
     count_pcs P (goto i p s) =
       count_pcs P s + (if P p then 1 else 0) - (if P (pcs s ! (i - 1)) then 1 else 0)"
proof -
  assume "1 \<le> i" "i \<le> length (pcs s)"
  then have "i - 1 < length (pcs s)" by simp
  from length_filter_update [OF this, of P p] show ?thesis
    by (simp add: count_pcs_def goto_def split: if_splits)
qed

lemma count_pcs_pos:
  "1 \<le> i \<Longrightarrow> i \<le> length (pcs s) \<Longrightarrow> P (pcs s ! (i - 1)) \<Longrightarrow> 1 \<le> count_pcs P s"
  unfolding count_pcs_def
  by (metis One_nat_def Suc_leI diff_less filter_empty_conv length_greater_0_conv less_le_trans
      nth_mem zero_less_one)

lemma count_pcs_less:
  "1 \<le> i \<Longrightarrow> i \<le> length (pcs s) \<Longrightarrow> \<not> P (pcs s ! (i - 1)) \<Longrightarrow>
     count_pcs P s < length (pcs s)"
  unfolding count_pcs_def
  by (rule length_filter_less [of "pcs s ! (i - 1)"]) simp_all

lemma count_pcs_limiter_update [simp]:
  "count_pcs P (s\<lparr>limiter := l\<rparr>) = count_pcs P s"
  "count_pcs P (s\<lparr>errlog := el\<rparr>) = count_pcs P s"
  by (simp_all add: count_pcs_def)

lemma goto_fields [simp]:
  "limiter (goto i p s) = limiter s"
  "errlog (goto i p s) = errlog s"
  "length (pcs (goto i p s)) = length (pcs s)"
  by (simp_all add: goto_def)


lemma worker_step_cases [case_names Skip WaitOk Deadline Cancel RateErr LimitHit LimitOk
    IncOwn IncTotal NoCallback CallbackOk CallbackErr]:
  obtains
    (Skip) "worker_step ev s = s"
      "fst ev < 1 \<or> length (pcs s) < fst ev \<or> (\<exists>c. pcs s ! (fst ev - 1) = Stopped c)"
  | (WaitOk) i where "fst ev = i" "1 \<le> i" "i \<le> length (pcs s)" "pcs s ! (i - 1) = AtWait"
      "snd ev = None" "worker_step ev s = goto i AtCheck s"
  | (Deadline) i err where "fst ev = i" "1 \<le> i" "i \<le> length (pcs s)"
      "pcs s ! (i - 1) = AtWait" "snd ev = Some err"
      "err = DeadlineExceeded \<or> strings_Contains (error_Error err) ''context deadline''"
      "worker_step ev s =
         wg_Done_exit i ByDeadline (s\<lparr>limiter := (limiter s)\<lparr>isDeadline := True\<rparr>\<rparr>)"
  | (Cancel) i where "fst ev = i" "1 \<le> i" "i \<le> length (pcs s)" "pcs s ! (i - 1) = AtWait"
      "snd ev = Some Canceled"
      "\<not> strings_Contains (error_Error Canceled) ''context deadline''"
      "worker_step ev s =
         wg_Done_exit i ByCanceled (s\<lparr>limiter := (limiter s)\<lparr>isCanceled := True\<rparr>\<rparr>)"
  | (RateErr) i err where "fst ev = i" "1 \<le> i" "i \<le> length (pcs s)" "pcs s ! (i - 1) = AtWait"
      "snd ev = Some err"
      "\<not> (err = DeadlineExceeded \<or> strings_Contains (error_Error err) ''context deadline'')"
      "err \<noteq> Canceled"
      "worker_step ev s =
         wg_Done_exit i ByRateError
           (s\<lparr>limiter := (limiter s)\<lparr>isRateError := True, lastError := Some err\<rparr>,
              errlog := errlog s @ [err]\<rparr>)"
  | (LimitHit) i where "fst ev = i" "1 \<le> i" "i \<le> length (pcs s)" "pcs s ! (i - 1) = AtCheck"
      "0 < limit (limiter s)" "limit (limiter s) \<le> counters (limiter s) ! 0"
      "worker_step ev s =
         wg_Done_exit i ByQueryLimit (s\<lparr>limiter := (limiter s)\<lparr>isQueryLimit := True\<rparr>\<rparr>)"
  | (LimitOk) i where "fst ev = i" "1 \<le> i" "i \<le> length (pcs s)" "pcs s ! (i - 1) = AtCheck"
      "\<not> (0 < limit (limiter s) \<and> limit (limiter s) \<le> counters (limiter s) ! 0)"
      "worker_step ev s = goto i AtIncOwn s"
  | (IncOwn) i where "fst ev = i" "1 \<le> i" "i \<le> length (pcs s)" "pcs s ! (i - 1) = AtIncOwn"
      "worker_step ev s = goto i AtIncTotal (AddUint32 i s)"
  | (IncTotal) i where "fst ev = i" "1 \<le> i" "i \<le> length (pcs s)" "pcs s ! (i - 1) = AtIncTotal"
      "worker_step ev s = goto i AtCallback (AddUint32 0 s)"
  | (NoCallback) i where "fst ev = i" "1 \<le> i" "i \<le> length (pcs s)" "pcs s ! (i - 1) = AtCallback"
      "callback (limiter s) = None"
      "worker_step ev s = goto i AtWait s"
  | (CallbackOk) i cb where "fst ev = i" "1 \<le> i" "i \<le> length (pcs s)" "pcs s ! (i - 1) = AtCallback"
      "callback (limiter s) = Some cb"
      "cb \<lparr>Limiter = limiter_fields.truncate (limiter s), GroupID = int i\<rparr> = None"
      "worker_step ev s = goto i AtWait s"
  | (CallbackErr) i cb err where "fst ev = i" "1 \<le> i" "i \<le> length (pcs s)" "pcs s ! (i - 1) = AtCallback"
      "callback (limiter s) = Some cb"
      "cb \<lparr>Limiter = limiter_fields.truncate (limiter s), GroupID = int i\<rparr> = Some err"
      "worker_step ev s =
         wg_Done_exit i ByCallbackError
           (s\<lparr>limiter := (limiter s)\<lparr>isCallbackError := True, lastError := Some err\<rparr>,
              errlog := errlog s @ [err]\<rparr>)"
proof (cases "fst ev < 1 \<or> length (pcs s) < fst ev")
  case True
  then have "worker_step ev s = s" by (simp add: Let_def worker_step_def)
  with True show ?thesis by (intro Skip) auto
next
  case False
  then have i: "1 \<le> fst ev" "fst ev \<le> length (pcs s)" by auto
  show ?thesis
  proof (cases "pcs s ! (fst ev - 1)")
    case AtWait
    show ?thesis
    proof (cases "snd ev")
      case None
      with AtWait i show ?thesis by (intro WaitOk [of "fst ev"]) (simp_all add: Let_def worker_step_def)
    next
      case (Some err)
      consider (d) "err = DeadlineExceeded \<or> strings_Contains (error_Error err) ''context deadline''"
        | (c) "\<not> (err = DeadlineExceeded \<or> strings_Contains (error_Error err) ''context deadline'')"
              "err = Canceled"
        | (r) "\<not> (err = DeadlineExceeded \<or> strings_Contains (error_Error err) ''context deadline'')"
              "err \<noteq> Canceled"
        by blast
      then show ?thesis
      proof cases
        case d
        with Some AtWait i show ?thesis
          by (intro Deadline [of "fst ev" err]) (simp_all add: Let_def worker_step_def wait_failed_def)
      next
        case c
        with Some AtWait i show ?thesis
          by (intro Cancel [of "fst ev"]) (simp_all add: Let_def worker_step_def wait_failed_def)
      next
        case r
        with Some AtWait i show ?thesis
          by (intro RateErr [of "fst ev" err]) (simp_all add: Let_def worker_step_def wait_failed_def)
      qed
    qed
  next
    case AtCheck
    show ?thesis
    proof (cases "0 < limit (limiter s) \<and> limit (limiter s) \<le> counters (limiter s) ! 0")
      case True
      with AtCheck i show ?thesis
        by (intro LimitHit [of "fst ev"]) (simp_all add: Let_def worker_step_def check_limit_def)
    next
      case False
      with AtCheck i show ?thesis
        by (intro LimitOk [of "fst ev"]) (auto simp: Let_def worker_step_def check_limit_def)
    qed
  next
    case AtIncOwn
    with i show ?thesis by (intro IncOwn [of "fst ev"]) (simp_all add: Let_def worker_step_def)
  next
    case AtIncTotal
    with i show ?thesis by (intro IncTotal [of "fst ev"]) (simp_all add: Let_def worker_step_def)
  next
    case AtCallback
    show ?thesis
    proof (cases "callback (limiter s)")
      case None
      with AtCallback i show ?thesis
        by (intro NoCallback [of "fst ev"]) (simp_all add: Let_def worker_step_def call_callback_def)
    next
      case (Some cb)
      show ?thesis
      proof (cases "cb \<lparr>Limiter = limiter_fields.truncate (limiter s), GroupID = int (fst ev)\<rparr>")
        case None
        with Some AtCallback i show ?thesis
          by (intro CallbackOk [of "fst ev" cb]) (simp_all add: Let_def worker_step_def call_callback_def)
      next
        case (Some err)
        with \<open>callback (limiter s) = Some cb\<close> AtCallback i show ?thesis
          by (intro CallbackErr [of "fst ev" cb err])
             (simp_all add: Let_def worker_step_def call_callback_def)
      qed
    qed
  next
    case (Stopped c)
    with i have "worker_step ev s = s" by (simp add: Let_def worker_step_def)
    with Stopped show ?thesis by (intro Skip) simp_all
  qed
qed

lemma wg_Done_exit_fields [simp]:
  "pcs (wg_Done_exit i c s) = (pcs s)[i - 1 := Stopped c]"
  "errlog (wg_Done_exit i c s) = errlog s"
  "limiter (wg_Done_exit i c s) = (limiter s)\<lparr>wg := wg (limiter s) - 1\<rparr>"
  by (simp_all add: wg_Done_exit_def goto_def)

lemma count_pcs_wg_Done_exit:
  "1 \<le> i \<Longrightarrow> i \<le> length (pcs s) \<Longrightarrow>
     count_pcs P (wg_Done_exit i c s) =
       count_pcs P s + (if P (Stopped c) then 1 else 0) - (if P (pcs s ! (i - 1)) then 1 else 0)"
  by (simp add: wg_Done_exit_def count_pcs_goto)

lemma AddUint32_fields [simp]:
  "pcs (AddUint32 k s) = pcs s"
  "errlog (AddUint32 k s) = errlog s"
  "limiter (AddUint32 k s) =
     (limiter s)\<lparr>counters := (counters (limiter s))[k := counters (limiter s) ! k + 1]\<rparr>"
  "count_pcs P (AddUint32 k s) = count_pcs P s"
  by (simp_all add: AddUint32_def count_pcs_def)

lemma unat_Suc_le: "unat (w + 1 :: uint32) \<le> unat w + 1"
  by (metis Suc_eq_plus1 le_refl unatSuc unat_0 zero_le  add.commute)

lemma soft_cap_step:
  assumes "soft_cap s" "0 < limit (limiter s)"
  shows "soft_cap (worker_step ev s)"
proof (cases rule: worker_step_cases [where ev = ev and s = s])
  case (LimitOk i)
  then have "count_pcs past_check s < length (pcs s)"
    using count_pcs_less [of i s past_check] by simp
  with LimitOk assms show ?thesis
    by (auto simp: soft_cap_def count_pcs_goto count_pcs_wg_Done_exit word_le_nat_alt word_less_nat_alt)
next
  case (IncOwn i)
  with assms count_pcs_pos [of i s past_check] show ?thesis
    by (auto simp: soft_cap_def count_pcs_goto count_pcs_wg_Done_exit nth_list_update)
next
  case (IncTotal i)
  with assms count_pcs_pos [of i s past_check] unat_Suc_le [of "counters (limiter s) ! 0"]
  show ?thesis
    by (auto simp: soft_cap_def count_pcs_goto count_pcs_wg_Done_exit nth_list_update neq_Nil_conv)
qed (use assms in \<open>auto simp: soft_cap_def count_pcs_goto count_pcs_wg_Done_exit\<close>)

lemma wg_counts_step:
  assumes "wg_counts s"
  shows "wg_counts (worker_step ev s)"
proof (cases rule: worker_step_cases [where ev = ev and s = s])
  case Skip
  with assms show ?thesis by simp
qed (use assms count_pcs_pos [of _ s running] in \<open>auto simp: wg_counts_def count_pcs_goto count_pcs_wg_Done_exit\<close>)

section \<open>The start and the end of a run\<close>

lemma run_workers_frame:
  "concurrency (limiter (run_workers evs s)) = concurrency (limiter s)"
  "limit (limiter (run_workers evs s)) = limit (limiter s)"
  "callback (limiter (run_workers evs s)) = callback (limiter s)"
  "start (limiter (run_workers evs s)) = start (limiter s)"
  "since (limiter (run_workers evs s)) = since (limiter s)"
  "done_flag (limiter (run_workers evs s)) = done_flag (limiter s)"
  "length (pcs (run_workers evs s)) = length (pcs s)"
  "length (counters (limiter (run_workers evs s))) = length (counters (limiter s))"
  by (induction evs arbitrary: s) (simp_all add: worker_step_frame)

lemma Run_begin_fields:
  "concurrency (limiter (Run_begin l t0)) = concurrency l"
  "limit (limiter (Run_begin l t0)) = limit l"
  "callback (limiter (Run_begin l t0)) = callback l"
  "start (limiter (Run_begin l t0)) = t0"
  "done_flag (limiter (Run_begin l t0)) = done_flag l"
  "wg (limiter (Run_begin l t0)) = wg l + int (unat (concurrency l))"
  "lastError (limiter (Run_begin l t0)) = lastError l"
  "isDeadline (limiter (Run_begin l t0)) = isDeadline l"
  "isCanceled (limiter (Run_begin l t0)) = isCanceled l"
  "isQueryLimit (limiter (Run_begin l t0)) = isQueryLimit l"
  "isRateError (limiter (Run_begin l t0)) = isRateError l"
  "isCallbackError (limiter (Run_begin l t0)) = isCallbackError l"
  "counters (limiter (Run_begin l t0)) = replicate (unat (concurrency l) + 1) 0"
  "pcs (Run_begin l t0) = replicate (unat (concurrency l)) AtWait"
  "errlog (Run_begin l t0) = []"
  by (simp_all add: Run_begin_def)

lemma New_fields:
  assumes "New o' = Inr l"
  shows "concurrency l = Concurrency o'" "limit l = Limit o'" "callback l = Callback o'"
    "duration l = Duration o'" "qps l = QPS o'"
    "counters l = []" "wg l = 0" "done_flag l = False" "lastError l = None"
    "isDeadline l = False" "isCanceled l = False" "isQueryLimit l = False"
    "isRateError l = False" "isCallbackError l = False"
  using assms by (auto simp: New_def Let_def split: if_splits)

lemma New_valid:
  assumes "New o' = Inr l"
  shows "Limit o' = 0 \<or> Concurrency o' \<le> Limit o'"
  using assms by (auto simp: New_def Let_def not_le word_gt_0 split: if_splits)

lemma Run_SomeD:
  assumes "Run l t0 sched t1 = Some (r, l')"
  shows "wg (limiter (run_workers sched (Run_begin l t0))) = 0"
    and "l' = (limiter (run_workers sched (Run_begin l t0)))\<lparr>since := t1 - t0, done_flag := True\<rparr>"
    and "r = lastError (limiter (run_workers sched (Run_begin l t0)))"
  using assms
  by (auto simp: Run_def Run_end_def Let_def run_workers_frame Run_begin_fields split: if_splits)

lemma run_workers_no_goroutines:
  "pcs s = [] \<Longrightarrow> run_workers evs s = s"
  by (induction evs) (auto simp: worker_step_def Let_def)

section \<open>Invariants\<close>

lemma count_pcs_Run_begin:
  "count_pcs P (Run_begin l t0) = (if P AtWait then unat (concurrency l) else 0)"
  by (simp add: count_pcs_def Run_begin_fields)

lemma count_pcs_pos_iff: "0 < count_pcs P s \<longleftrightarrow> (\<exists>p \<in> set (pcs s). P p)"
  by (simp add: count_pcs_def filter_empty_conv)

lemma count_pcs_zero_iff: "count_pcs P s = 0 \<longleftrightarrow> (\<forall>p \<in> set (pcs s). \<not> P p)"
  by (simp add: count_pcs_def filter_empty_conv)

lemma count_pcs_mono:
  "(\<And>p. P p \<Longrightarrow> Q p) \<Longrightarrow> count_pcs Q s = 0 \<Longrightarrow> count_pcs P s = 0"
  by (auto simp: count_pcs_zero_iff)

lemma unat_le_uint_bound:
  assumes "unat (c::uint32) + 1 \<le> unat (a::uint32) + unat (b::uint32)"
  shows "uint c \<le> uint a + uint b - 1"
proof -
  from assms have "int (unat c + 1) \<le> int (unat a + unat b)"
    by (simp only: of_nat_le_iff)
  then show ?thesis by simp
qed

subsection \<open>The shape of the state\<close>

lemma shape_Run_begin: "shape (Run_begin l t0)"
  by (simp add: shape_def Run_begin_fields)

lemma shape_run: "shape (run_workers sched (Run_begin l t0))"
  using shape_Run_begin [of l t0] by (simp add: shape_def run_workers_frame)

subsection \<open>The wait group\<close>

lemma wg_counts_run:
  assumes "wg l = 0"
  shows "wg_counts (run_workers sched (Run_begin l t0))"
proof (rule run_workers_induct)
  show "wg_counts (Run_begin l t0)"
    using assms by (simp add: wg_counts_def Run_begin_fields count_pcs_Run_begin)
qed (rule wg_counts_step)

lemma Run_all_stopped:
  assumes "wg l = 0" and "Run l t0 sched t1 = Some (r, l')"
  shows "count_pcs running (run_workers sched (Run_begin l t0)) = 0"
  using wg_counts_run [OF assms(1), of sched t0] Run_SomeD(1) [OF assms(2)]
  by (simp add: wg_counts_def)

subsection \<open>The soft cap\<close>

lemma soft_cap_run:
  assumes "0 < limit l"
  shows "soft_cap (run_workers sched (Run_begin l t0))"
proof -
  have "soft_cap (run_workers sched (Run_begin l t0)) \<and>
        0 < limit (limiter (run_workers sched (Run_begin l t0)))"
  proof (rule run_workers_induct)
    have "0 < unat (limit l)" using assms by (simp add: word_less_nat_alt)
    then show "soft_cap (Run_begin l t0) \<and> 0 < limit (limiter (Run_begin l t0))"
      using assms by (simp add: soft_cap_def Run_begin_fields count_pcs_Run_begin)
  next
    fix ev s
    assume "soft_cap s \<and> 0 < limit (limiter s)"
    then show "soft_cap (worker_step ev s) \<and> 0 < limit (limiter (worker_step ev s))"
      by (simp add: soft_cap_step worker_step_frame)
  qed
  then show ?thesis ..
qed

subsection \<open>The sum of the slots\<close>

lemma sum_list_update_add:
  fixes xs :: "'a::comm_monoid_add list"
  shows "k < length xs \<Longrightarrow> sum_list (xs[k := xs ! k + d]) = sum_list xs + d"
proof (induction xs arbitrary: k)
  case Nil
  then show ?case by simp
next
  case (Cons x xs)
  then show ?case by (cases k) (simp_all add: ac_simps)
qed

lemma tl_update:
  "tl (xs[k := v]) = (if k = 0 then tl xs else (tl xs)[k - 1 := v])"
  by (cases xs; cases k) simp_all

lemma sum_tl_AddUint32:
  assumes "shape s" and "1 \<le> i" and "i \<le> length (pcs s)"
  shows "sum_list (tl (counters (limiter (AddUint32 i s)))) =
           sum_list (tl (counters (limiter s))) + 1"
proof -
  let ?cs = "counters (limiter s)"
  from assms have k: "i - 1 < length (tl ?cs)" by (simp add: shape_def)
  then have "tl ?cs ! (i - 1) = ?cs ! i"
    using assms(2) by (simp add: nth_tl)
  with k assms(2) show ?thesis
    using sum_list_update_add [OF k, of 1] by (simp add: tl_update)
qed

lemma slots_sum_step:
  assumes "shape s" and "slots_sum s"
  shows "slots_sum (worker_step ev s)"
proof (cases rule: worker_step_cases [where ev = ev and s = s])
  case (IncOwn i)
  with assms sum_tl_AddUint32 [of s i] show ?thesis
    by (simp add: slots_sum_def count_pcs_goto shape_def)
next
  case (IncTotal i)
  from count_pcs_pos [of i s between_adds] IncTotal
  obtain m where m: "count_pcs between_adds s = Suc m"
    by (cases "count_pcs between_adds s") simp_all
  from assms have "counters (limiter s) \<noteq> []" by (auto simp: shape_def)
  with IncTotal assms m show ?thesis
    by (simp add: slots_sum_def count_pcs_goto tl_update)
qed (use assms in \<open>auto simp: slots_sum_def count_pcs_goto count_pcs_wg_Done_exit\<close>)

lemma slots_sum_run: "slots_sum (run_workers sched (Run_begin l t0))"
proof -
  have "shape (run_workers sched (Run_begin l t0)) \<and> slots_sum (run_workers sched (Run_begin l t0))"
  proof (rule run_workers_induct)
    show "shape (Run_begin l t0) \<and> slots_sum (Run_begin l t0)"
      by (simp add: shape_Run_begin slots_sum_def Run_begin_fields count_pcs_Run_begin
          sum_list_replicate)
  next
    fix ev s
    assume "shape s \<and> slots_sum s"
    then show "shape (worker_step ev s) \<and> slots_sum (worker_step ev s)"
      by (simp add: slots_sum_step shape_def worker_step_frame)
  qed
  then show ?thesis ..
qed

lemma unat_sum_list:
  "unat (sum_list ws :: uint32) = sum_list (map unat ws) mod 2 ^ 32"
proof (induction ws)
  case Nil
  then show ?case by simp
next
  case (Cons w ws)
  then show ?case by (simp add: unat_word_ariths mod_add_right_eq)
qed

subsection \<open>The errors written\<close>

lemma errors_logged_step:
  assumes "errors_logged s"
  shows "errors_logged (worker_step ev s)"
proof (cases rule: worker_step_cases [where ev = ev and s = s])
  case Skip
  with assms show ?thesis by simp
qed (use assms in \<open>auto simp: errors_logged_def count_pcs_goto count_pcs_wg_Done_exit\<close>)

lemma errors_logged_run:
  assumes "lastError l = None" and "\<not> isRateError l" and "\<not> isCallbackError l"
  shows "errors_logged (run_workers sched (Run_begin l t0))"
proof (rule run_workers_induct)
  show "errors_logged (Run_begin l t0)"
    using assms by (simp add: errors_logged_def Run_begin_fields count_pcs_Run_begin)
qed (rule errors_logged_step)

lemma stopped_with_error_iff:
  "stopped_with_error p \<longleftrightarrow> p = Stopped ByRateError \<or> p = Stopped ByCallbackError"
  by (cases p rule: stopped_with_error.cases) simp_all

lemma running_iff: "running p \<longleftrightarrow> (\<forall>c. p \<noteq> Stopped c)"
  by (cases p) simp_all

subsection \<open>A nil callback\<close>

lemma no_callback_error_step:
  assumes "callback (limiter s) = None"
    and "count_pcs (\<lambda>p. p = Stopped ByCallbackError) s = 0"
  shows "count_pcs (\<lambda>p. p = Stopped ByCallbackError) (worker_step ev s) = 0"
proof (cases rule: worker_step_cases [where ev = ev and s = s])
  case Skip
  with assms show ?thesis by simp
qed (use assms in \<open>auto simp: count_pcs_goto count_pcs_wg_Done_exit\<close>)

lemma no_callback_error_run:
  assumes "callback l = None"
  shows "count_pcs (\<lambda>p. p = Stopped ByCallbackError) (run_workers sched (Run_begin l t0)) = 0"
proof -
  let ?P = "\<lambda>s. callback (limiter s) = None \<and> count_pcs (\<lambda>p. p = Stopped ByCallbackError) s = 0"
  have "?P (run_workers sched (Run_begin l t0))"
  proof (rule run_workers_induct)
    show "?P (Run_begin l t0)"
      using assms by (simp add: Run_begin_fields count_pcs_Run_begin)
  next
    fix ev s
    assume "?P s"
    then show "?P (worker_step ev s)"
      by (simp add: no_callback_error_step worker_step_frame)
  qed
  then show ?thesis ..
qed

lemma nil_callback_step:
  assumes "callback (limiter s) = None" and "1 \<le> i" and "i \<le> length (pcs s)"
    and "pcs s ! (i - 1) = AtCallback"
  shows "worker_step (i, g) s = goto i AtWait s"
  using assms by (simp add: worker_step_def call_callback_def Let_def)

lemma nil_callback_iteration:
  assumes "callback (limiter s) = None" and "1 \<le> i" and "i \<le> length (pcs s)"
    and "pcs s ! (i - 1) = AtWait"
    and "\<not> (0 < limit (limiter s) \<and> limit (limiter s) \<le> counters (limiter s) ! 0)"
  shows "run_workers (replicate 5 (i, None)) s =
           s\<lparr>limiter := (limiter s)\<lparr>counters :=
                (counters (limiter s))[i := counters (limiter s) ! i + 1,
                                      0 := counters (limiter s) ! 0 + 1]\<rparr>\<rparr>"
proof -
  from assms(2,3) have k: "i - 1 < length (pcs s)" and i0: "i \<noteq> 0" by simp_all
  define s1 where "s1 = goto i AtCheck s"
  define s2 where "s2 = goto i AtIncOwn s1"
  define s3 where "s3 = goto i AtIncTotal (AddUint32 i s2)"
  define s4 where "s4 = goto i AtCallback (AddUint32 0 s3)"
  define s5 where "s5 = goto i AtWait s4"
  have 1: "worker_step (i, None) s = s1"
    using assms by (simp add: worker_step_def Let_def s1_def)
  have p1: "pcs s1 ! (i - 1) = AtCheck" "length (pcs s1) = length (pcs s)" "limiter s1 = limiter s"
    using k by (simp_all add: s1_def goto_def)
  have 2: "worker_step (i, None) s1 = s2"
    using assms p1 by (auto simp: worker_step_def check_limit_def Let_def s2_def)
  have p2: "pcs s2 ! (i - 1) = AtIncOwn" "length (pcs s2) = length (pcs s)" "limiter s2 = limiter s"
    using k p1 by (simp_all add: s2_def goto_def)
  have 3: "worker_step (i, None) s2 = s3"
    using assms p2 by (simp add: worker_step_def Let_def s3_def)
  have p3: "pcs s3 ! (i - 1) = AtIncTotal" "length (pcs s3) = length (pcs s)"
    "callback (limiter s3) = None"
    using k p2 assms(1) by (simp_all add: s3_def goto_def)
  have 4: "worker_step (i, None) s3 = s4"
    using assms p3 by (simp add: worker_step_def Let_def s4_def)
  have p4: "pcs s4 ! (i - 1) = AtCallback" "length (pcs s4) = length (pcs s)"
    "callback (limiter s4) = None"
    using k p3 by (simp_all add: s4_def goto_def)
  have 5: "worker_step (i, None) s4 = s5"
    using assms(2,3) p4 by (simp add: nil_callback_step s5_def)
  have "run_workers (replicate 5 (i, None)) s = s5"
    by (simp add: numeral_eq_Suc 1 2 3 4 5)
  also have "s5 = s\<lparr>limiter := (limiter s)\<lparr>counters :=
                (counters (limiter s))[i := counters (limiter s) ! i + 1,
                                      0 := counters (limiter s) ! 0 + 1]\<rparr>\<rparr>"
  proof -
    have "(pcs s)[i - 1 := AtWait] = pcs s"
      using assms(4) by (metis list_update_id)
    with i0 show ?thesis
      by (simp add: s5_def s4_def s3_def s2_def s1_def goto_def AddUint32_def)
  qed
  finally show ?thesis .
qed

subsection \<open>A callback that always fails\<close>

lemma unat_add_one: "unat (w :: uint32) + 1 < 2 ^ 32 \<Longrightarrow> unat (w + 1) = unat w + 1"
  by (simp add: unat_word_ariths)

lemma one_shot_limit_not_hit:
  assumes "one_shot s" and "1 \<le> i" and "i \<le> length (pcs s)" and "pcs s ! (i - 1) = AtCheck"
  shows "\<not> (0 < limit (limiter s) \<and> limit (limiter s) \<le> counters (limiter s) ! 0)"
proof
  assume h: "0 < limit (limiter s) \<and> limit (limiter s) \<le> counters (limiter s) ! 0"
  have "count_pcs past_adds s < length (pcs s)"
    using count_pcs_less [of i s past_adds] assms by simp
  moreover have "unat (limit (limiter s)) \<le> count_pcs past_adds s"
    using h assms(1) by (simp add: one_shot_def word_le_nat_alt)
  moreover have "limit (limiter s) \<noteq> 0" using h by auto
  ultimately show False using assms(1) by (simp add: one_shot_def)
qed

lemma one_shot_callback_fails:
  "one_shot s \<Longrightarrow> callback (limiter s) = Some cb \<Longrightarrow> cb cbp \<noteq> None"
  by (auto simp: one_shot_def)

lemma one_shot_step:
  assumes "one_shot s"
  shows "one_shot (worker_step ev s)"
proof (cases rule: worker_step_cases [where ev = ev and s = s])
  case (LimitHit i)
  with one_shot_limit_not_hit [OF assms, of i] show ?thesis by simp
next
  case (IncOwn i)
  with assms show ?thesis
    by (auto simp: one_shot_def count_pcs_goto)
next
  case (IncTotal i)
  have "count_pcs past_adds s < length (pcs s)"
    using count_pcs_less [of i s past_adds] IncTotal by simp
  with assms have "unat (counters (limiter s) ! 0) + 1 < 2 ^ 32"
    by (simp add: one_shot_def)
  then have "unat (counters (limiter s) ! 0 + 1) = unat (counters (limiter s) ! 0) + 1"
    by (rule unat_add_one)
  with IncTotal assms show ?thesis
    by (auto simp: one_shot_def count_pcs_goto neq_Nil_conv)
next
  case (CallbackOk i cb)
  have False
    using one_shot_callback_fails [OF assms(1) CallbackOk(5)] CallbackOk(6) by blast
  then show ?thesis ..
qed (use assms in \<open>auto simp: one_shot_def count_pcs_goto count_pcs_wg_Done_exit\<close>)

lemma admitted_only_step:
  assumes "one_shot s" and "callback (limiter s) = Some cb" and "admitted_only cb s"
    and "snd ev = None"
  shows "admitted_only cb (worker_step ev s)"
proof (cases rule: worker_step_cases [where ev = ev and s = s])
  case (LimitHit i)
  with one_shot_limit_not_hit [OF assms(1), of i] show ?thesis by simp
next
  case (CallbackOk i cb)
  have False
    using one_shot_callback_fails [OF assms(1) CallbackOk(5)] CallbackOk(6) by blast
  then show ?thesis ..
qed (use assms in \<open>auto simp: admitted_only_def count_pcs_goto count_pcs_wg_Done_exit\<close>)

lemma steps_left_step:
  assumes "one_shot s" and "snd ev = None" and "1 \<le> j" and "j \<le> length (pcs s)"
  shows "steps_left (pcs (worker_step ev s) ! (j - 1)) =
           steps_left (pcs s ! (j - 1)) - (if fst ev = j then 1 else 0)"
proof -
  have upd: "(pcs s)[i - 1 := p] ! (j - 1) = (if i = j then p else pcs s ! (j - 1))"
    if "1 \<le> i" "i \<le> length (pcs s)" for i p
    using that assms(3,4) by (auto simp: nth_list_update)
  show ?thesis
  proof (cases rule: worker_step_cases [where ev = ev and s = s])
    case Skip
    with assms show ?thesis by auto
  next
    case (LimitHit i)
    with one_shot_limit_not_hit [OF assms(1), of i] show ?thesis by simp
  next
    case (CallbackOk i cb)
    have False
      using one_shot_callback_fails [OF assms(1) CallbackOk(5)] CallbackOk(6) by blast
    then show ?thesis ..
  qed (use assms upd in \<open>auto simp: goto_def one_shot_def\<close>)
qed

lemma turns_Cons: "turns j (ev # evs) = (if fst ev = j then 1 else 0) + turns j evs"
  by (simp add: turns_def)

lemma steps_left_run:
  assumes "one_shot s" and "\<forall>ev \<in> set evs. snd ev = None" and "1 \<le> j" and "j \<le> length (pcs s)"
  shows "steps_left (pcs (run_workers evs s) ! (j - 1)) = steps_left (pcs s ! (j - 1)) - turns j evs"
  using assms
proof (induction evs arbitrary: s)
  case Nil
  then show ?case by (simp add: turns_def)
next
  case (Cons ev evs)
  have "steps_left (pcs (run_workers evs (worker_step ev s)) ! (j - 1)) =
          steps_left (pcs (worker_step ev s) ! (j - 1)) - turns j evs"
    using Cons.prems by (intro Cons.IH) (simp_all add: one_shot_step worker_step_frame)
  also have "steps_left (pcs (worker_step ev s) ! (j - 1)) =
          steps_left (pcs s ! (j - 1)) - (if fst ev = j then 1 else 0)"
    using Cons.prems by (intro steps_left_step) simp_all
  finally show ?case by (simp add: turns_Cons)
qed

lemma run_workers_induct_events:
  assumes "P s" and "\<And>ev s. ev \<in> set evs \<Longrightarrow> P s \<Longrightarrow> P (worker_step ev s)"
  shows "P (run_workers evs s)"
  using assms by (induction evs arbitrary: s) simp_all


lemma one_shot_Run_begin:
  assumes "New o' = Inr l" and "Callback o' = Some cb" and "\<forall>cbp. cb cbp \<noteq> None"
  shows "one_shot (Run_begin l t0)"
proof -
  note f = New_fields [OF assms(1)]
  have "unat (concurrency l) < 2 ^ 32"
    using unsigned_less [of "concurrency l", where 'a = nat] by simp
  moreover have "limit l = 0 \<or> unat (concurrency l) \<le> unat (limit l)"
    using New_valid [OF assms(1)] f by (auto simp: word_le_nat_alt)
  ultimately show ?thesis
    using f assms(2,3) by (simp add: one_shot_def Run_begin_fields count_pcs_Run_begin)
qed

lemma one_shot_run:
  assumes "New o' = Inr l" and "Callback o' = Some cb" and "\<forall>cbp. cb cbp \<noteq> None"
  shows "one_shot (run_workers sched (Run_begin l t0))"
  by (rule run_workers_induct) (rule one_shot_Run_begin [OF assms], rule one_shot_step)

lemma admitted_only_run:
  assumes "New o' = Inr l" and "Callback o' = Some cb" and "\<forall>cbp. cb cbp \<noteq> None"
    and "\<forall>ev \<in> set sched. snd ev = None"
  shows "admitted_only cb (run_workers sched (Run_begin l t0))"
proof -
  let ?P = "\<lambda>s. one_shot s \<and> callback (limiter s) = Some cb \<and> admitted_only cb s"
  have "?P (run_workers sched (Run_begin l t0))"
  proof (rule run_workers_induct_events)
    show "?P (Run_begin l t0)"
      using one_shot_Run_begin [OF assms(1-3)] New_fields [OF assms(1)] assms(2)
      by (simp add: admitted_only_def Run_begin_fields count_pcs_Run_begin)
  next
    fix ev s
    assume "ev \<in> set sched" and "?P s"
    with assms(4) show "?P (worker_step ev s)"
      by (simp add: one_shot_step admitted_only_step worker_step_frame)
  qed
  then show ?thesis by simp
qed

lemma fair_schedule_stops:
  assumes "New o' = Inr l" and "Callback o' = Some cb" and "\<forall>cbp. cb cbp \<noteq> None"
    and "\<forall>ev \<in> set sched. snd ev = None"
    and "\<forall>i. 1 \<le> i \<and> i \<le> unat (Concurrency o') \<longrightarrow> 5 \<le> turns i sched"
  shows "count_pcs running (run_workers sched (Run_begin l t0)) = 0"
proof -
  let ?s = "run_workers sched (Run_begin l t0)"
  have len: "length (pcs ?s) = unat (Concurrency o')"
    using New_fields [OF assms(1)] by (simp add: run_workers_frame Run_begin_fields)
  have "\<not> running (pcs ?s ! k)" if k: "k < length (pcs ?s)" for k
  proof -
    from k len have j: "1 \<le> Suc k" "Suc k \<le> length (pcs (Run_begin l t0))"
      using New_fields [OF assms(1)] by (simp_all add: Run_begin_fields)
    have "steps_left (pcs ?s ! (Suc k - 1)) =
            steps_left (pcs (Run_begin l t0) ! (Suc k - 1)) - turns (Suc k) sched"
      using one_shot_Run_begin [OF assms(1-3)] assms(4) j by (rule steps_left_run)
    moreover have "pcs (Run_begin l t0) ! k = AtWait"
      using j by (simp add: Run_begin_fields)
    moreover have "5 \<le> turns (Suc k) sched"
      using assms(5) k len by simp
    ultimately have "steps_left (pcs ?s ! k) = 0" by simp
    then show ?thesis by (cases "pcs ?s ! k") simp_all
  qed
  then show ?thesis
    by (auto simp: count_pcs_zero_iff in_set_conv_nth)
qed

lemma own_slot_goto:
  assumes "own_slot s" and "1 \<le> i" and "i \<le> length (pcs s)"
    and "past_own p = past_own (pcs s ! (i - 1))"
  shows "own_slot (goto i p s)"
  using assms by (auto simp: own_slot_def goto_def nth_list_update)

lemma own_slot_exit:
  assumes "own_slot s" and "1 \<le> i" and "i \<le> length (pcs s)"
    and "past_own (Stopped c) = past_own (pcs s ! (i - 1))"
    and "counters (limiter s') = counters (limiter s)" and "pcs s' = pcs s"
  shows "own_slot (wg_Done_exit i c s')"
  using assms by (auto simp: own_slot_def nth_list_update)

lemma own_slot_step:
  assumes "one_shot s" and "shape s" and "own_slot s"
  shows "own_slot (worker_step ev s)"
proof (cases rule: worker_step_cases [where ev = ev and s = s])
  case Skip
  with assms show ?thesis by simp
next
  case (WaitOk i)
  with assms show ?thesis by (simp add: own_slot_goto)
next
  case (Deadline i err)
  with assms show ?thesis by (simp add: own_slot_exit)
next
  case (Cancel i)
  with assms show ?thesis by (simp add: own_slot_exit)
next
  case (RateErr i err)
  with assms show ?thesis by (simp add: own_slot_exit)
next
  case (LimitHit i)
  with one_shot_limit_not_hit [OF assms(1), of i] show ?thesis by simp
next
  case (LimitOk i)
  with assms show ?thesis by (simp add: own_slot_goto)
next
  case (IncOwn i)
  with assms show ?thesis
    by (auto simp: own_slot_def goto_def shape_def nth_list_update)
next
  case (IncTotal i)
  with assms show ?thesis
    by (auto simp: own_slot_def goto_def shape_def nth_list_update)
next
  case (NoCallback i)
  with assms show ?thesis by (simp add: one_shot_def)
next
  case (CallbackOk i cb)
  have False
    using one_shot_callback_fails [OF assms(1) CallbackOk(5)] CallbackOk(6) by blast
  then show ?thesis ..
next
  case (CallbackErr i cb err)
  with assms show ?thesis by (simp add: own_slot_exit)
qed

lemma own_slot_run:
  assumes "New o' = Inr l" and "Callback o' = Some cb" and "\<forall>cbp. cb cbp \<noteq> None"
  shows "own_slot (run_workers sched (Run_begin l t0))"
proof -
  let ?P = "\<lambda>s. one_shot s \<and> shape s \<and> own_slot s"
  have "?P (run_workers sched (Run_begin l t0))"
  proof (rule run_workers_induct)
    show "?P (Run_begin l t0)"
      using one_shot_Run_begin [OF assms]
      by (simp add: shape_Run_begin own_slot_def Run_begin_fields)
  next
    fix ev s
    assume "?P s"
    then show "?P (worker_step ev s)"
      by (simp add: one_shot_step own_slot_step shape_def worker_step_frame)
  qed
  then show ?thesis by simp
qed

subsection \<open>What a run receives\<close>

lemma take_eq_iff_prefix: "take (length sub) s = sub \<longleftrightarrow> (\<exists>q. s = sub @ q)"
  by (metis append_eq_conv_conj append_take_drop_id)

lemma strings_Contains_iff: "strings_Contains s sub \<longleftrightarrow> (\<exists>p q. s = p @ sub @ q)"
proof (induction s)
  case Nil
  then show ?case by simp
next
  case (Cons c s)
  have "(\<exists>p q. c # s = p @ sub @ q) \<longleftrightarrow> (\<exists>q. c # s = sub @ q) \<or> (\<exists>p q. s = p @ sub @ q)"
  proof
    assume "\<exists>p q. c # s = p @ sub @ q"
    then obtain p q where e: "c # s = p @ sub @ q" by blast
    show "(\<exists>q. c # s = sub @ q) \<or> (\<exists>p q. s = p @ sub @ q)"
    proof (cases p)
      case Nil
      with e show ?thesis by auto
    next
      case (Cons a p')
      with e have "s = p' @ sub @ q" by simp
      then show ?thesis by blast
    qed
  next
    assume "(\<exists>q. c # s = sub @ q) \<or> (\<exists>p q. s = p @ sub @ q)"
    then show "\<exists>p q. c # s = p @ sub @ q"
    proof
      assume "\<exists>q. c # s = sub @ q"
      then obtain q where "c # s = [] @ sub @ q" by auto
      then show ?thesis by blast
    next
      assume "\<exists>p q. s = p @ sub @ q"
      then obtain p q where "c # s = (c # p) @ sub @ q" by auto
      then show ?thesis by blast
    qed
  qed
  with Cons show ?case
    using take_eq_iff_prefix [of sub "c # s"] by simp
qed

lemma deadline_shaped_code [code]:
  "deadline_shaped err \<longleftrightarrow>
     err = DeadlineExceeded \<or> strings_Contains (error_Error err) ''context deadline''"
  by (simp add: deadline_shaped_def strings_Contains_iff)

lemma not_deadline_shaped_Canceled: "\<not> deadline_shaped Canceled"
  by code_simp

lemma observed_step:
  "errlog (worker_step ev s) = errlog s @ failures (observe ev s)"
  "lastError (limiter (worker_step ev s)) =
     (if failures (observe ev s) = [] then lastError (limiter s)
      else Some (last (failures (observe ev s))))"
  "isDeadline (limiter (worker_step ev s)) \<longleftrightarrow>
     isDeadline (limiter s) \<or> (\<exists>ob \<in> set (observe ev s). snd (stop_of ob) = ByDeadline)"
  "isCanceled (limiter (worker_step ev s)) \<longleftrightarrow>
     isCanceled (limiter s) \<or> (\<exists>ob \<in> set (observe ev s). snd (stop_of ob) = ByCanceled)"
  "isQueryLimit (limiter (worker_step ev s)) \<longleftrightarrow>
     isQueryLimit (limiter s) \<or> (\<exists>ob \<in> set (observe ev s). snd (stop_of ob) = ByQueryLimit)"
  "isRateError (limiter (worker_step ev s)) \<longleftrightarrow>
     isRateError (limiter s) \<or> (\<exists>ob \<in> set (observe ev s). snd (stop_of ob) = ByRateError)"
  "isCallbackError (limiter (worker_step ev s)) \<longleftrightarrow>
     isCallbackError (limiter s) \<or>
     (\<exists>ob \<in> set (observe ev s). snd (stop_of ob) = ByCallbackError)"
  by (auto simp: worker_step_def observe_def failures_def wait_failed_def check_limit_def
      call_callback_def goto_def Let_def deadline_shaped_code
      split: pc.split option.split)

lemma failures_append: "failures (xs @ ys) = failures xs @ failures ys"
  by (simp add: failures_def)

lemma observed_run:
  "errlog (run_workers evs s) = errlog s @ failures (observations evs s)"
  "lastError (limiter (run_workers evs s)) =
     (if failures (observations evs s) = [] then lastError (limiter s)
      else Some (last (failures (observations evs s))))"
  "isDeadline (limiter (run_workers evs s)) \<longleftrightarrow>
     isDeadline (limiter s) \<or> (\<exists>ob \<in> set (observations evs s). snd (stop_of ob) = ByDeadline)"
  "isCanceled (limiter (run_workers evs s)) \<longleftrightarrow>
     isCanceled (limiter s) \<or> (\<exists>ob \<in> set (observations evs s). snd (stop_of ob) = ByCanceled)"
  "isQueryLimit (limiter (run_workers evs s)) \<longleftrightarrow>
     isQueryLimit (limiter s) \<or>
     (\<exists>ob \<in> set (observations evs s). snd (stop_of ob) = ByQueryLimit)"
  "isRateError (limiter (run_workers evs s)) \<longleftrightarrow>
     isRateError (limiter s) \<or> (\<exists>ob \<in> set (observations evs s). snd (stop_of ob) = ByRateError)"
  "isCallbackError (limiter (run_workers evs s)) \<longleftrightarrow>
     isCallbackError (limiter s) \<or>
     (\<exists>ob \<in> set (observations evs s). snd (stop_of ob) = ByCallbackError)"
proof (induction evs arbitrary: s)
  case Nil
  {
    case 1 show ?case by (simp add: failures_def)
  next
    case 2 show ?case by (simp add: failures_def)
  next
    case 3 show ?case by simp
  next
    case 4 show ?case by simp
  next
    case 5 show ?case by simp
  next
    case 6 show ?case by simp
  next
    case 7 show ?case by simp
  }
next
  case (Cons ev evs)
  {
    case 1 show ?case by (simp add: Cons.IH(1) observed_step(1) failures_append)
  next
    case 2 show ?case by (simp add: Cons.IH(2) observed_step(2) failures_append)
  next
    case 3 show ?case by (simp add: Cons.IH(3) observed_step(3) bex_Un)
  next
    case 4 show ?case by (simp add: Cons.IH(4) observed_step(4) bex_Un)
  next
    case 5 show ?case by (simp add: Cons.IH(5) observed_step(5) bex_Un)
  next
    case 6 show ?case by (simp add: Cons.IH(6) observed_step(6) bex_Un)
  next
    case 7 show ?case by (simp add: Cons.IH(7) observed_step(7) bex_Un)
  }
qed

lemma stopped_step:
  assumes "k < length (pcs s)"
  shows "pcs (worker_step ev s) ! k = Stopped c \<longleftrightarrow>
           pcs s ! k = Stopped c \<or> (\<exists>ob \<in> set (observe ev s). stop_of ob = (Suc k, c))"
proof (cases rule: worker_step_cases [where ev = ev and s = s])
  case Skip
  then have "observe ev s = []" by (auto simp: observe_def Let_def)
  with Skip show ?thesis by simp
qed (use assms in \<open>auto simp: observe_def Let_def goto_def nth_list_update deadline_shaped_code\<close>)

lemma stopped_run:
  assumes "k < length (pcs s)"
  shows "pcs (run_workers evs s) ! k = Stopped c \<longleftrightarrow>
           pcs s ! k = Stopped c \<or> (\<exists>ob \<in> set (observations evs s). stop_of ob = (Suc k, c))"
  using assms
proof (induction evs arbitrary: s)
  case Nil
  then show ?case by simp
next
  case (Cons ev evs)
  from Cons.prems have "k < length (pcs (worker_step ev s))"
    by (simp add: worker_step_frame)
  from Cons.IH [OF this] stopped_step [OF Cons.prems, of ev c]
  show ?case by (simp add: bex_Un)
qed

lemma observed_causes:
  "(\<exists>ob \<in> set obs. snd (stop_of ob) = ByDeadline) \<longleftrightarrow>
     (\<exists>i err. GateFailed i err \<in> set obs \<and> deadline_shaped err)"
  "(\<exists>ob \<in> set obs. snd (stop_of ob) = ByCanceled) \<longleftrightarrow> (\<exists>i. GateFailed i Canceled \<in> set obs)"
  "(\<exists>ob \<in> set obs. snd (stop_of ob) = ByQueryLimit) \<longleftrightarrow> (\<exists>i. LimitReached i \<in> set obs)"
  "(\<exists>ob \<in> set obs. snd (stop_of ob) = ByRateError) \<longleftrightarrow>
     (\<exists>i err. GateFailed i err \<in> set obs \<and> \<not> deadline_shaped err \<and> err \<noteq> Canceled)"
  "(\<exists>ob \<in> set obs. snd (stop_of ob) = ByCallbackError) \<longleftrightarrow>
     (\<exists>i err. CallbackFailed i err \<in> set obs)"
proof -
  have c: "snd (stop_of ob) = ByDeadline \<longleftrightarrow> (\<exists>i err. ob = GateFailed i err \<and> deadline_shaped err)"
    "snd (stop_of ob) = ByCanceled \<longleftrightarrow> (\<exists>i. ob = GateFailed i Canceled)"
    "snd (stop_of ob) = ByQueryLimit \<longleftrightarrow> (\<exists>i. ob = LimitReached i)"
    "snd (stop_of ob) = ByRateError \<longleftrightarrow>
       (\<exists>i err. ob = GateFailed i err \<and> \<not> deadline_shaped err \<and> err \<noteq> Canceled)"
    "snd (stop_of ob) = ByCallbackError \<longleftrightarrow> (\<exists>i err. ob = CallbackFailed i err)"
    for ob
    using not_deadline_shaped_Canceled by (cases ob; auto)+
  show "(\<exists>ob \<in> set obs. snd (stop_of ob) = ByDeadline) \<longleftrightarrow>
     (\<exists>i err. GateFailed i err \<in> set obs \<and> deadline_shaped err)"
    by (simp add: c) blast
  show "(\<exists>ob \<in> set obs. snd (stop_of ob) = ByCanceled) \<longleftrightarrow> (\<exists>i. GateFailed i Canceled \<in> set obs)"
    by (simp add: c) blast
  show "(\<exists>ob \<in> set obs. snd (stop_of ob) = ByQueryLimit) \<longleftrightarrow> (\<exists>i. LimitReached i \<in> set obs)"
    by (simp add: c) blast
  show "(\<exists>ob \<in> set obs. snd (stop_of ob) = ByRateError) \<longleftrightarrow>
     (\<exists>i err. GateFailed i err \<in> set obs \<and> \<not> deadline_shaped err \<and> err \<noteq> Canceled)"
    by (simp add: c) blast
  show "(\<exists>ob \<in> set obs. snd (stop_of ob) = ByCallbackError) \<longleftrightarrow>
     (\<exists>i err. CallbackFailed i err \<in> set obs)"
    by (simp add: c) blast
qed

lemma failures_Nil_iff:
  "failures obs = [] \<longleftrightarrow>
     (\<forall>i err. GateFailed i err \<in> set obs \<longrightarrow> deadline_shaped err \<or> err = Canceled) \<and>
     (\<forall>i err. CallbackFailed i err \<notin> set obs)"
proof -
  have "recorded ob = [] \<longleftrightarrow>
      (\<forall>i err. ob = GateFailed i err \<longrightarrow> deadline_shaped err \<or> err = Canceled) \<and>
      (\<forall>i err. ob \<noteq> CallbackFailed i err)" for ob
    by (cases ob) auto
  then show ?thesis
    by (simp add: failures_def) blast
qed

lemma observe_sources:
  "GateFailed i err \<in> set (observe ev s) \<Longrightarrow> ev = (i, Some err)"
  "CallbackFailed i err \<in> set (observe ev s) \<Longrightarrow>
     \<exists>cb cbp. callback (limiter s) = Some cb \<and> GroupID cbp = int i \<and> cb cbp = Some err"
proof -
  show "ev = (i, Some err)" if "GateFailed i err \<in> set (observe ev s)"
    using that
    by (auto simp: observe_def Let_def prod_eq_iff split: pc.splits option.splits if_splits)
  show "\<exists>cb cbp. callback (limiter s) = Some cb \<and> GroupID cbp = int i \<and> cb cbp = Some err"
    if "CallbackFailed i err \<in> set (observe ev s)"
  proof -
    from that have "\<exists>cb. callback (limiter s) = Some cb \<and>
        cb \<lparr>Limiter = limiter_fields.truncate (limiter s), GroupID = int i\<rparr> = Some err"
      by (auto simp: observe_def Let_def split: pc.splits option.splits if_splits)
    then obtain cb where "callback (limiter s) = Some cb"
      and "cb \<lparr>Limiter = limiter_fields.truncate (limiter s), GroupID = int i\<rparr> = Some err"
      by blast
    then show ?thesis
      by (intro exI [of _ cb]
          exI [of _ "\<lparr>Limiter = limiter_fields.truncate (limiter s), GroupID = int i\<rparr>"]) simp
  qed
qed

lemma observations_sources:
  "GateFailed i err \<in> set (observations evs s) \<Longrightarrow> (i, Some err) \<in> set evs"
  "CallbackFailed i err \<in> set (observations evs s) \<Longrightarrow>
     \<exists>cb cbp. callback (limiter s) = Some cb \<and> GroupID cbp = int i \<and> cb cbp = Some err"
proof (induction evs arbitrary: s)
  case Nil
  {
    case 1 then show ?case by simp
  next
    case 2 then show ?case by simp
  }
next
  case (Cons ev evs)
  {
    case 1
    then show ?case using Cons.IH(1) [of "worker_step ev s"] observe_sources(1) [of i err ev s]
      by auto
  next
    case 2
    then show ?case using Cons.IH(2) [of "worker_step ev s"] observe_sources(2) [of i err ev s]
      by (auto simp: worker_step_frame)
  }
qed

subsection \<open>Evaluating sample runs\<close>

lemma Run_eq_SomeI:
  "map_option fst (Run l t0 sched t1) = Some r \<Longrightarrow>
     Run l t0 sched t1 = Some (r, snd (the (Run l t0 sched t1)))"
  by (cases "Run l t0 sched t1") auto

lemma New_sample:
  "\<not> isl (New (mk_options n k d cb)) \<Longrightarrow>
     New (mk_options n k d cb) = Inr (sample_limiter n k d cb)"
  by (simp add: sample_limiter_def)

text \<open>The equations that evaluate a run on a concrete schedule.\<close>

lemmas run_eval = New_def mk_options_def sample_limiter_def always_fails_def Run_def Run_end_def
  Run_begin_def worker_step_def goto_def wg_Done_exit_def wait_failed_def check_limit_def
  AddUint32_def call_callback_def Let_def NumOfQueries_def NumOfQueriesByGroupID_def
  slice_index_def Since_def LastError_def IsDeadline_def IsCanceled_def IsQueryLimit_def
  IsRateError_def IsCallbackError_def

section \<open>Construction\<close>

text \<open>
  Claim C3. \<open>New\<close> returns a validation error exactly when the limit is positive and
  below the concurrency, or the limit and the duration are both 0; in every other case
  it returns a limiter and no error. A limit equal to the concurrency does not raise the
  limit error, and is accepted whenever the limit or the duration is not 0.
\<close>

theorem New_validation:
  "((\<exists>e. New o' = Inl e) \<longleftrightarrow>
      (0 < Limit o' \<and> Limit o' < Concurrency o') \<or> (Limit o' = 0 \<and> Duration o' = 0)) \<and>
   ((\<exists>l. New o' = Inr l) \<longleftrightarrow>
      \<not> ((0 < Limit o' \<and> Limit o' < Concurrency o') \<or> (Limit o' = 0 \<and> Duration o' = 0))) \<and>
   (Limit o' = Concurrency o' \<longrightarrow>
      New o' \<noteq> Inl (Error ''limit value must be greater than concurrency value'')) \<and>
   (Limit o' = Concurrency o' \<and> (0 < Limit o' \<or> Duration o' \<noteq> 0) \<longrightarrow>
      (\<exists>l. New o' = Inr l))"
  by (auto simp: New_def Let_def)

theorem New_validation_witness:
  "\<not> (\<exists>e. New (mk_options 2 2 0 None) = Inl e) \<and>
   (\<exists>l. New (mk_options 2 2 0 None) = Inr l) \<and>
   (\<exists>e. New (mk_options 3 2 5 None) = Inl e) \<and>
   (\<exists>e. New (mk_options 3 0 0 None) = Inl e)"
  using New_validation [of "mk_options 2 2 0 None"] New_validation [of "mk_options 3 2 5 None"]
    New_validation [of "mk_options 3 0 0 None"]
  by (simp add: mk_options_def)

section \<open>Accessors\<close>

text \<open>
  Claim C8, as amended. On a limiter returned by \<open>New\<close>, before \<open>Run\<close>, the slice of
  counters is nil: \<open>NumOfQueries\<close> panics on index 0, while \<open>NumOfQueriesByGroupID\<close>
  returns 0 for every id, since its bound check compares the id with the length 0.
\<close>

theorem accessors_before_Run:
  assumes "New o' = Inr l"
  shows "NumOfQueries l = Inl (IndexOutOfRange 0 0) \<and>
         (\<forall>id'. NumOfQueriesByGroupID l id' = Inr 0)"
  using New_fields(6) [OF assms]
  by (simp add: NumOfQueries_def NumOfQueriesByGroupID_def slice_index_def)

theorem accessors_before_Run_witness:
  "New (mk_options 1 1 0 None) = Inr (projr (New (mk_options 1 1 0 None))) \<and>
   NumOfQueries (projr (New (mk_options 1 1 0 None))) = Inl (IndexOutOfRange 0 0) \<and>
   NumOfQueriesByGroupID (projr (New (mk_options 1 1 0 None))) 7 = Inr 0"
proof -
  have h: "New (mk_options 1 1 0 None) = Inr (projr (New (mk_options 1 1 0 None)))"
    by (simp add: New_def mk_options_def)
  from accessors_before_Run [OF h] h show ?thesis by simp
qed

text \<open>
  Claim C8 as stated fails: with concurrency 1 the id 1 lies in [1, Concurrency], and
  \<open>NumOfQueriesByGroupID\<close> before \<open>Run\<close> returns 0 there instead of panicking.
\<close>

theorem by_group_id_before_Run_counterexample:
  "\<not> isl (New (mk_options 1 1 0 None)) \<and>
   NumOfQueriesByGroupID (projr (New (mk_options 1 1 0 None))) 1 = Inr 0"
  by (simp add: New_def mk_options_def NumOfQueriesByGroupID_def)

text \<open>
  Claim C6. At every point of a run once the goroutines are started, and in the limiter
  that \<open>Run\<close> leaves, \<open>NumOfQueriesByGroupID\<close> returns the counter at index \<open>id\<close> when
  \<open>id\<close> lies in [1, Concurrency] and 0 for every other integer.
\<close>

theorem NumOfQueriesByGroupID_in_run:
  "NumOfQueriesByGroupID (limiter (run_workers sched (Run_begin l t0))) id' =
     (if 1 \<le> id' \<and> id' \<le> uint (concurrency l)
      then Inr (uint (counters (limiter (run_workers sched (Run_begin l t0))) ! nat id'))
      else Inr 0) \<and>
   (Run l t0 sched t1 = Some (r, l') \<longrightarrow>
      NumOfQueriesByGroupID l' id' =
        (if 1 \<le> id' \<and> id' \<le> uint (concurrency l) then Inr (uint (counters l' ! nat id'))
         else Inr 0))"
proof -
  let ?s = "run_workers sched (Run_begin l t0)"
  have len: "int (length (counters (limiter ?s))) = uint (concurrency l) + 1"
    by (simp add: run_workers_frame Run_begin_fields)
  have a: "NumOfQueriesByGroupID (limiter ?s) id' =
     (if 1 \<le> id' \<and> id' \<le> uint (concurrency l)
      then Inr (uint (counters (limiter ?s) ! nat id')) else Inr 0)"
    using len by (auto simp: NumOfQueriesByGroupID_def slice_index_def)
  have b: "NumOfQueriesByGroupID l' id' =
        (if 1 \<le> id' \<and> id' \<le> uint (concurrency l) then Inr (uint (counters l' ! nat id'))
         else Inr 0)" if "Run l t0 sched t1 = Some (r, l')"
    using len Run_SomeD(2) [OF that] by (auto simp: NumOfQueriesByGroupID_def slice_index_def)
  from a b show ?thesis by blast
qed

theorem NumOfQueriesByGroupID_in_run_witness:
  "NumOfQueriesByGroupID
     (limiter (run_workers [(1, None), (1, None), (1, None)] (Run_begin (sample_limiter 1 1 0 None) 0))) 1
     = Inr 1 \<and>
   NumOfQueriesByGroupID
     (limiter (run_workers [(1, None), (1, None), (1, None)] (Run_begin (sample_limiter 1 1 0 None) 0))) 2
     = Inr 0 \<and>
   Run (sample_limiter 1 1 0 None) 0 (replicate 7 (1, None)) 9 =
     Some (None, snd (the (Run (sample_limiter 1 1 0 None) 0 (replicate 7 (1, None)) 9))) \<and>
   NumOfQueriesByGroupID (snd (the (Run (sample_limiter 1 1 0 None) 0 (replicate 7 (1, None)) 9))) 1
     = Inr 1"
proof -
  have h: "Run (sample_limiter 1 1 0 None) 0 (replicate 7 (1, None)) 9 =
     Some (None, snd (the (Run (sample_limiter 1 1 0 None) 0 (replicate 7 (1, None)) 9)))"
    by (simp add: run_eval numeral_eq_Suc)
  from h NumOfQueriesByGroupID_in_run [of "[(1, None), (1, None), (1, None)]"
      "sample_limiter 1 1 0 None" 0 1 ]
    NumOfQueriesByGroupID_in_run [of "[(1, None), (1, None), (1, None)]"
      "sample_limiter 1 1 0 None" 0 2]
    NumOfQueriesByGroupID_in_run [of "replicate 7 (1, None)"
      "sample_limiter 1 1 0 None" 0 1 9 None
      "snd (the (Run (sample_limiter 1 1 0 None) 0 (replicate 7 (1, None)) 9))"]
  show ?thesis
    by (simp add: run_eval numeral_eq_Suc)
qed

text \<open>
  Claim C7. Once \<open>Run\<close> has returned, \<open>Since\<close> returns the elapsed time that \<open>Run\<close>
  stored, whatever the clock reads, so repeated reads are equal. While the run is in
  progress, \<open>Since\<close> returns the clock reading minus the recorded start, so a later
  reading never gives less, at the same or a later point of the run, nor does a read
  after \<open>Run\<close> has returned give less than one before. The clock is monotonic: the
  readings are the parameters \<open>now\<close> and \<open>now'\<close>.
\<close>

theorem Since_frozen_after_Run:
  assumes "New o' = Inr l"
  shows "(Run l t0 sched t1 = Some (r, l') \<longrightarrow>
            Since l' now = t1 - t0 \<and> Since l' now' = Since l' now) \<and>
         Since (limiter (run_workers sched (Run_begin l t0))) now = now - t0 \<and>
         (now \<le> now' \<longrightarrow>
            Since (limiter (run_workers sched (Run_begin l t0))) now
              \<le> Since (limiter (run_workers (sched @ sched') (Run_begin l t0))) now') \<and>
         (Run l t0 sched t1 = Some (r, l') \<and> now \<le> t1 \<longrightarrow>
            Since (limiter (run_workers sched (Run_begin l t0))) now \<le> Since l' now')"
proof -
  have live: "Since (limiter (run_workers evs (Run_begin l t0))) t = t - t0" for evs t
    using New_fields(8) [OF assms]
    by (simp add: Since_def run_workers_frame Run_begin_fields)
  have frozen: "Since l' t = t1 - t0" if "Run l t0 sched t1 = Some (r, l')" for t
    using Run_SomeD(2) [OF that] by (simp add: Since_def)
  show ?thesis using live frozen by simp
qed

theorem Since_frozen_after_Run_witness:
  "New (mk_options 1 1 0 None) = Inr (sample_limiter 1 1 0 None) \<and>
   Run (sample_limiter 1 1 0 None) 10 (replicate 7 (1, None)) 25 =
     Some (None, snd (the (Run (sample_limiter 1 1 0 None) 10 (replicate 7 (1, None)) 25))) \<and>
   Since (snd (the (Run (sample_limiter 1 1 0 None) 10 (replicate 7 (1, None)) 25))) 30 = 15 \<and>
   Since (snd (the (Run (sample_limiter 1 1 0 None) 10 (replicate 7 (1, None)) 25))) 99 = 15 \<and>
   Since (limiter (run_workers [(1, None)] (Run_begin (sample_limiter 1 1 0 None) 10))) 12 = 2"
proof -
  have n: "New (mk_options 1 1 0 None) = Inr (sample_limiter 1 1 0 None)"
    by (simp add: New_def mk_options_def sample_limiter_def)
  have h: "Run (sample_limiter 1 1 0 None) 10 (replicate 7 (1, None)) 25 =
     Some (None, snd (the (Run (sample_limiter 1 1 0 None) 10 (replicate 7 (1, None)) 25)))"
    by (simp add: run_eval numeral_eq_Suc)
  from n h Since_frozen_after_Run [OF n, of 10 "replicate 7 (1, None)" 25 None
      "snd (the (Run (sample_limiter 1 1 0 None) 10 (replicate 7 (1, None)) 25))" 30 99]
    Since_frozen_after_Run [OF n, of 10 "[(1, None)]" 25 None
      "snd (the (Run (sample_limiter 1 1 0 None) 10 (replicate 7 (1, None)) 25))" 12 12]
  show ?thesis by simp
qed

section \<open>Runs\<close>

text \<open>
  Claim C9. Options with concurrency 0 and a limit or a duration other than 0 are
  accepted by \<open>New\<close>; \<open>Run\<close> on the limiter starts no goroutine and returns under every
  schedule, with a nil error, a total of 0, no termination flag, no last error and a
  slice of counters of length 1.
\<close>

theorem zero_concurrency_run:
  assumes "Concurrency o' = 0" and "Limit o' \<noteq> 0 \<or> Duration o' \<noteq> 0"
  shows "\<exists>l. New o' = Inr l \<and>
           (\<forall>t0 sched t1.
              pcs (run_workers sched (Run_begin l t0)) = [] \<and>
              (\<exists>l'. Run l t0 sched t1 = Some (None, l') \<and>
                 NumOfQueries l' = Inr 0 \<and> length (counters l') = 1 \<and>
                 \<not> IsDeadline l' \<and> \<not> IsCanceled l' \<and> \<not> IsQueryLimit l' \<and>
                 \<not> IsRateError l' \<and> \<not> IsCallbackError l' \<and> LastError l' = None))"
proof -
  from assms obtain l where l: "New o' = Inr l"
    by (auto simp: New_def Let_def)
  have n: "concurrency l = 0" using New_fields(1) [OF l] assms(1) by simp
  have "pcs (run_workers sched (Run_begin l t0)) = [] \<and>
        (\<exists>l'. Run l t0 sched t1 = Some (None, l') \<and>
           NumOfQueries l' = Inr 0 \<and> length (counters l') = 1 \<and>
           \<not> IsDeadline l' \<and> \<not> IsCanceled l' \<and> \<not> IsQueryLimit l' \<and>
           \<not> IsRateError l' \<and> \<not> IsCallbackError l' \<and> LastError l' = None)"
    for t0 sched t1
  proof -
    have p: "pcs (Run_begin l t0) = []" by (simp add: Run_begin_fields n)
    have s: "run_workers sched (Run_begin l t0) = Run_begin l t0"
      by (rule run_workers_no_goroutines [OF p])
    have r: "Run l t0 sched t1 = Run_end (Run_begin l t0) t1"
      by (simp only: Run_def s)
    show ?thesis
      unfolding r s
      using New_fields [OF l] n
      by (simp add: Run_end_def Let_def Run_begin_def NumOfQueries_def slice_index_def
          IsDeadline_def IsCanceled_def IsQueryLimit_def IsRateError_def IsCallbackError_def
          LastError_def)
  qed
  with l show ?thesis by blast
qed

theorem zero_concurrency_run_witness:
  "Concurrency (mk_options 0 0 5 None) = 0 \<and>
   Duration (mk_options 0 0 5 None) \<noteq> 0 \<and>
   (\<exists>l'. Run (sample_limiter 0 0 5 None) 0 [(1, None), (0, Some Canceled)] 3 = Some (None, l')
      \<and> NumOfQueries l' = Inr 0 \<and> length (counters l') = 1)"
proof -
  have h: "Concurrency (mk_options 0 0 5 None) = 0"
    "Limit (mk_options 0 0 5 None) \<noteq> 0 \<or> Duration (mk_options 0 0 5 None) \<noteq> 0"
    by (simp_all add: mk_options_def)
  from zero_concurrency_run [OF h] obtain l where
    l: "New (mk_options 0 0 5 None) = Inr l" and
    r: "\<And>t0 sched t1. \<exists>l'. Run l t0 sched t1 = Some (None, l') \<and>
                 NumOfQueries l' = Inr 0 \<and> length (counters l') = 1"
    by blast
  from l have "sample_limiter 0 0 5 None = l" by (simp add: sample_limiter_def)
  with r [of 0 "[(1, None), (0, Some Canceled)]" 3] h(1) show ?thesis
    by (simp add: mk_options_def)
qed

text \<open>
  Claim C1. For a limiter built by \<open>New\<close> with a limit above 0, the total (index 0) is
  at most Limit + Concurrency - 1 at every point of the run, and so in the limiter that
  \<open>Run\<close> leaves when it returns.
\<close>

theorem aggregate_soft_cap:
  assumes "New o' = Inr l" and "0 < Limit o'"
  shows "(\<exists>c. NumOfQueries (limiter (run_workers sched (Run_begin l t0))) = Inr c \<and>
              c \<le> uint (Limit o') + uint (Concurrency o') - 1) \<and>
         (Run l t0 sched t1 = Some (r, l') \<longrightarrow>
            (\<exists>c. NumOfQueries l' = Inr c \<and> c \<le> uint (Limit o') + uint (Concurrency o') - 1))"
proof -
  let ?s = "run_workers sched (Run_begin l t0)"
  have lim: "limit l = Limit o'" and con: "concurrency l = Concurrency o'"
    using New_fields [OF assms(1)] by simp_all
  have "soft_cap ?s" using assms(2) lim by (simp add: soft_cap_run)
  then have ne: "counters (limiter ?s) \<noteq> []"
    and le: "unat (counters (limiter ?s) ! 0) + 1 \<le> unat (Limit o') + unat (Concurrency o')"
    by (simp_all add: soft_cap_def run_workers_frame Run_begin_fields lim con)
  from le have "uint (counters (limiter ?s) ! 0) \<le> uint (Limit o') + uint (Concurrency o') - 1"
    by (rule unat_le_uint_bound)
  with ne have a: "\<exists>c. NumOfQueries (limiter ?s) = Inr c \<and>
              c \<le> uint (Limit o') + uint (Concurrency o') - 1"
    by (simp add: NumOfQueries_def slice_index_def)
  have b: "\<exists>c. NumOfQueries l' = Inr c \<and> c \<le> uint (Limit o') + uint (Concurrency o') - 1"
    if "Run l t0 sched t1 = Some (r, l')"
    using a Run_SomeD(2) [OF that] by (simp add: NumOfQueries_def)
  from a b show ?thesis by blast
qed

theorem aggregate_soft_cap_witness:
  "New (mk_options 2 2 0 None) = Inr (sample_limiter 2 2 0 None) \<and>
   0 < Limit (mk_options 2 2 0 None) \<and>
   map_option fst (Run (sample_limiter 2 2 0 None) 0 overshoot_schedule 9) = Some None \<and>
   NumOfQueries (snd (the (Run (sample_limiter 2 2 0 None) 0 overshoot_schedule 9))) = Inr 3 \<and>
   (\<exists>c. NumOfQueries (snd (the (Run (sample_limiter 2 2 0 None) 0 overshoot_schedule 9))) = Inr c \<and>
      c \<le> uint (Limit (mk_options 2 2 0 None)) + uint (Concurrency (mk_options 2 2 0 None)) - 1)"
proof -
  have n: "New (mk_options 2 2 0 None) = Inr (sample_limiter 2 2 0 None)"
    by (rule New_sample) code_simp
  have p: "0 < Limit (mk_options 2 2 0 None)"
    by (simp add: mk_options_def)
  have w: "map_option fst (Run (sample_limiter 2 2 0 None) 0 overshoot_schedule 9) = Some None"
    by code_simp
  have v: "NumOfQueries (snd (the (Run (sample_limiter 2 2 0 None) 0 overshoot_schedule 9))) = Inr 3"
    by code_simp
  from aggregate_soft_cap [OF n p, of overshoot_schedule 0 9] Run_eq_SomeI [OF w]
  have "\<exists>c. NumOfQueries (snd (the (Run (sample_limiter 2 2 0 None) 0 overshoot_schedule 9))) = Inr c \<and>
      c \<le> uint (Limit (mk_options 2 2 0 None)) + uint (Concurrency (mk_options 2 2 0 None)) - 1"
    by blast
  with n p w v show ?thesis by blast
qed

text \<open>
  Claim C2, as amended. At every point of a run the slots of the goroutines (indices 1
  to N) add up, in 32-bit arithmetic, to the total (index 0) plus the number of
  goroutines that stand between their two additions; the two are equal whenever no
  goroutine stands there, and so, for a limiter with an idle wait group as \<open>New\<close> makes
  it, in the limiter that \<open>Run\<close> leaves: there the sum of the slots, taken modulo
  \<open>2 ^ 32\<close>, is the total.
\<close>

theorem slots_add_up:
  "sum_list (tl (counters (limiter (run_workers sched (Run_begin l t0))))) =
     counters (limiter (run_workers sched (Run_begin l t0))) ! 0 +
     of_nat (count_pcs between_adds (run_workers sched (Run_begin l t0))) \<and>
   (count_pcs between_adds (run_workers sched (Run_begin l t0)) = 0 \<longrightarrow>
      sum_list (tl (counters (limiter (run_workers sched (Run_begin l t0))))) =
        counters (limiter (run_workers sched (Run_begin l t0))) ! 0) \<and>
   (wg l = 0 \<and> Run l t0 sched t1 = Some (r, l') \<longrightarrow>
      sum_list (tl (counters l')) = counters l' ! 0 \<and>
      sum_list (map unat (tl (counters l'))) mod 2 ^ 32 = unat (counters l' ! 0))"
proof -
  let ?s = "run_workers sched (Run_begin l t0)"
  have a: "sum_list (tl (counters (limiter ?s))) =
     counters (limiter ?s) ! 0 + of_nat (count_pcs between_adds ?s)"
    using slots_sum_run [of sched l t0] by (simp add: slots_sum_def)
  have b: "sum_list (tl (counters l')) = counters l' ! 0 \<and>
      sum_list (map unat (tl (counters l'))) mod 2 ^ 32 = unat (counters l' ! 0)"
    if "wg l = 0" and "Run l t0 sched t1 = Some (r, l')"
  proof -
    have "count_pcs running ?s = 0" using that by (rule Run_all_stopped)
    then have "count_pcs between_adds ?s = 0"
      by (rule count_pcs_mono [rotated]) (erule between_adds.elims, simp_all)
    with a have "sum_list (tl (counters (limiter ?s))) = counters (limiter ?s) ! 0" by simp
    moreover have "counters l' = counters (limiter ?s)"
      using Run_SomeD(2) [OF that(2)] by simp
    ultimately have e: "sum_list (tl (counters l')) = counters l' ! 0" by simp
    from e unat_sum_list [of "tl (counters l')"] show ?thesis by simp
  qed
  from a b show ?thesis by simp
qed

theorem slots_add_up_witness:
  "wg (sample_limiter 2 2 0 None) = 0 \<and>
   map_option fst (Run (sample_limiter 2 2 0 None) 0 overshoot_schedule 9) = Some None \<and>
   counters (snd (the (Run (sample_limiter 2 2 0 None) 0 overshoot_schedule 9))) = [3, 2, 1] \<and>
   sum_list (tl (counters (snd (the (Run (sample_limiter 2 2 0 None) 0 overshoot_schedule 9))))) =
     counters (snd (the (Run (sample_limiter 2 2 0 None) 0 overshoot_schedule 9))) ! 0 \<and>
   count_pcs between_adds
     (run_workers (replicate 3 (1, None)) (Run_begin (sample_limiter 2 2 0 None) 0)) = 1 \<and>
   sum_list (tl (counters (limiter
     (run_workers (replicate 3 (1, None)) (Run_begin (sample_limiter 2 2 0 None) 0))))) =
     counters (limiter
       (run_workers (replicate 3 (1, None)) (Run_begin (sample_limiter 2 2 0 None) 0))) ! 0 + 1"
proof -
  have g: "wg (sample_limiter 2 2 0 None) = 0" by code_simp
  have w: "map_option fst (Run (sample_limiter 2 2 0 None) 0 overshoot_schedule 9) = Some None"
    by code_simp
  have c: "counters (snd (the (Run (sample_limiter 2 2 0 None) 0 overshoot_schedule 9))) = [3, 2, 1]"
    by code_simp
  have k: "count_pcs between_adds
     (run_workers (replicate 3 (1, None)) (Run_begin (sample_limiter 2 2 0 None) 0)) = 1"
    by code_simp
  from slots_add_up [of overshoot_schedule "sample_limiter 2 2 0 None" 0 9 None
      "snd (the (Run (sample_limiter 2 2 0 None) 0 overshoot_schedule 9))"]
    g Run_eq_SomeI [OF w]
  have f: "sum_list (tl (counters (snd (the (Run (sample_limiter 2 2 0 None) 0 overshoot_schedule 9))))) =
     counters (snd (the (Run (sample_limiter 2 2 0 None) 0 overshoot_schedule 9))) ! 0"
    by blast
  from slots_add_up [of "replicate 3 (1, None)" "sample_limiter 2 2 0 None" 0] k
  have m: "sum_list (tl (counters (limiter
     (run_workers (replicate 3 (1, None)) (Run_begin (sample_limiter 2 2 0 None) 0))))) =
     counters (limiter
       (run_workers (replicate 3 (1, None)) (Run_begin (sample_limiter 2 2 0 None) 0))) ! 0 + 1"
    by simp
  from g w c f k m show ?thesis by blast
qed

text \<open>
  Claim C2 as stated fails at the point between the two additions: with one goroutine,
  after its wait, its check and the addition to its own slot, the slot reads 1 and the
  total reads 0.
\<close>

theorem slots_equal_total_counterexample:
  "New (mk_options 1 1 0 None) = Inr (sample_limiter 1 1 0 None) \<and>
   NumOfQueriesByGroupID
     (limiter (run_workers (replicate 3 (1, None)) (Run_begin (sample_limiter 1 1 0 None) 0))) 1
     = Inr 1 \<and>
   NumOfQueries
     (limiter (run_workers (replicate 3 (1, None)) (Run_begin (sample_limiter 1 1 0 None) 0)))
     = Inr 0"
proof -
  have n: "New (mk_options 1 1 0 None) = Inr (sample_limiter 1 1 0 None)"
    by (rule New_sample) code_simp
  have a: "NumOfQueriesByGroupID
     (limiter (run_workers (replicate 3 (1, None)) (Run_begin (sample_limiter 1 1 0 None) 0))) 1
     = Inr 1"
    by code_simp
  have b: "NumOfQueries
     (limiter (run_workers (replicate 3 (1, None)) (Run_begin (sample_limiter 1 1 0 None) 0)))
     = Inr 0"
    by code_simp
  from n a b show ?thesis by blast
qed

text \<open>
  Claim C4. When \<open>Run\<close> returns, every goroutine has stopped, each by the exit that what
  it received calls for: a gate error that stands for the deadline, a cancellation, any
  other gate error, a total at the limit, a callback error. If every gate error received
  stands for the deadline or is the cancellation sentinel and no call of the callback
  returned an error (so that every goroutine stopped by the deadline, a cancellation or
  the query limit), \<open>Run\<close> returns nil, and only the flags of these stops are set.
  \<open>Run\<close> returns an error exactly when some goroutine received a gate error of another
  kind or a callback error (exactly when an error was written to \<open>lastError\<close>, and
  exactly when one of the two error flags is set), and then the error returned is the
  last of these received; it is what \<open>LastError\<close> reads afterwards. Each of the five
  flags is set exactly when a goroutine received what it stands for. Every gate error
  received is an entry of the schedule and every callback error is a value of the
  callback, so a schedule with no gate error of another kind and a callback that never
  fails, or none, make \<open>Run\<close> return nil.
\<close>

theorem Run_returns_last_error:
  assumes "New o' = Inr l" and "Run l t0 sched t1 = Some (r, l')"
  shows "(\<forall>p \<in> set (pcs (run_workers sched (Run_begin l t0))). \<exists>c. p = Stopped c) \<and>
         ((\<forall>p \<in> set (pcs (run_workers sched (Run_begin l t0))).
              p = Stopped ByDeadline \<or> p = Stopped ByCanceled \<or> p = Stopped ByQueryLimit)
            \<longrightarrow> r = None) \<and>
         (r \<noteq> None \<longleftrightarrow>
            (\<exists>p \<in> set (pcs (run_workers sched (Run_begin l t0))).
               p = Stopped ByRateError \<or> p = Stopped ByCallbackError)) \<and>
         (r \<noteq> None \<longleftrightarrow> errlog (run_workers sched (Run_begin l t0)) \<noteq> []) \<and>
         (r \<noteq> None \<longrightarrow> r = Some (last (errlog (run_workers sched (Run_begin l t0))))) \<and>
         (r \<noteq> None \<longleftrightarrow> IsRateError l' \<or> IsCallbackError l') \<and>
         r = LastError l' \<and>
         (\<forall>i c. 1 \<le> i \<and> i \<le> unat (Concurrency o') \<longrightarrow>
            (pcs (run_workers sched (Run_begin l t0)) ! (i - 1) = Stopped c \<longleftrightarrow>
               (\<exists>ob \<in> set (observations sched (Run_begin l t0)). stop_of ob = (i, c)))) \<and>
         errlog (run_workers sched (Run_begin l t0)) =
           failures (observations sched (Run_begin l t0)) \<and>
         ((\<forall>i err. GateFailed i err \<in> set (observations sched (Run_begin l t0)) \<longrightarrow>
              deadline_shaped err \<or> err = Canceled) \<and>
          (\<forall>i err. CallbackFailed i err \<notin> set (observations sched (Run_begin l t0)))
            \<longrightarrow> r = None) \<and>
         (r \<noteq> None \<longleftrightarrow>
            (\<exists>i err. GateFailed i err \<in> set (observations sched (Run_begin l t0)) \<and>
                     \<not> deadline_shaped err \<and> err \<noteq> Canceled) \<or>
            (\<exists>i err. CallbackFailed i err \<in> set (observations sched (Run_begin l t0)))) \<and>
         (r \<noteq> None \<longrightarrow>
            r = Some (last (failures (observations sched (Run_begin l t0))))) \<and>
         (IsDeadline l' \<longleftrightarrow>
            (\<exists>i err. GateFailed i err \<in> set (observations sched (Run_begin l t0)) \<and>
                     deadline_shaped err)) \<and>
         (IsCanceled l' \<longleftrightarrow>
            (\<exists>i. GateFailed i Canceled \<in> set (observations sched (Run_begin l t0)))) \<and>
         (IsQueryLimit l' \<longleftrightarrow>
            (\<exists>i. LimitReached i \<in> set (observations sched (Run_begin l t0)))) \<and>
         (IsRateError l' \<longleftrightarrow>
            (\<exists>i err. GateFailed i err \<in> set (observations sched (Run_begin l t0)) \<and>
                     \<not> deadline_shaped err \<and> err \<noteq> Canceled)) \<and>
         (IsCallbackError l' \<longleftrightarrow>
            (\<exists>i err. CallbackFailed i err \<in> set (observations sched (Run_begin l t0)))) \<and>
         (\<forall>i err. GateFailed i err \<in> set (observations sched (Run_begin l t0)) \<longrightarrow>
            (i, Some err) \<in> set sched) \<and>
         (\<forall>i err. CallbackFailed i err \<in> set (observations sched (Run_begin l t0)) \<longrightarrow>
            (\<exists>cb cbp. Callback o' = Some cb \<and> GroupID cbp = int i \<and> cb cbp = Some err)) \<and>
         ((\<forall>i err. (i, Some err) \<in> set sched \<longrightarrow> deadline_shaped err \<or> err = Canceled) \<and>
          (\<forall>cb cbp. Callback o' = Some cb \<longrightarrow> cb cbp = None)
            \<longrightarrow> r = None)"
proof -
  let ?s = "run_workers sched (Run_begin l t0)"
  let ?obs = "observations sched (Run_begin l t0)"
  note f = New_fields [OF assms(1)]
  have el: "errors_logged ?s"
    using f by (intro errors_logged_run) simp_all
  have r: "r = lastError (limiter ?s)" and l': "l' = (limiter ?s)\<lparr>since := t1 - t0, done_flag := True\<rparr>"
    using Run_SomeD [OF assms(2)] by simp_all
  have "count_pcs running ?s = 0"
    using f(7) assms(2) by (rule Run_all_stopped)
  then have st: "\<forall>p \<in> set (pcs ?s). \<exists>c. p = Stopped c"
    by (simp add: count_pcs_zero_iff running_iff)
  have log: "r = (if errlog ?s = [] then None else Some (last (errlog ?s)))"
    using el r by (simp add: errors_logged_def)
  have "length (errlog ?s) = count_pcs stopped_with_error ?s"
    using el by (simp add: errors_logged_def)
  then have "errlog ?s \<noteq> [] \<longleftrightarrow> 0 < count_pcs stopped_with_error ?s"
    by (metis length_greater_0_conv)
  then have ex: "errlog ?s \<noteq> [] \<longleftrightarrow>
      (\<exists>p \<in> set (pcs ?s). p = Stopped ByRateError \<or> p = Stopped ByCallbackError)"
    by (simp add: count_pcs_pos_iff stopped_with_error_iff)
  have fl: "IsRateError l' \<or> IsCallbackError l' \<longleftrightarrow>
      (\<exists>p \<in> set (pcs ?s). p = Stopped ByRateError \<or> p = Stopped ByCallbackError)"
    using el l' by (auto simp: errors_logged_def count_pcs_pos_iff IsRateError_def IsCallbackError_def)
  have le: "r = LastError l'" using r l' by (simp add: LastError_def)
  have ok: "r = None"
    if "\<forall>p \<in> set (pcs ?s). p = Stopped ByDeadline \<or> p = Stopped ByCanceled \<or> p = Stopped ByQueryLimit"
  proof -
    from that have "\<not> (\<exists>p \<in> set (pcs ?s). p = Stopped ByRateError \<or> p = Stopped ByCallbackError)"
      by auto
    with ex log show ?thesis by simp
  qed
  have labels: "st \<and> (ok' \<longrightarrow> r = None) \<and> (r \<noteq> None \<longleftrightarrow> ex') \<and> (r \<noteq> None \<longleftrightarrow> errlog ?s \<noteq> []) \<and>
      (r \<noteq> None \<longrightarrow> r = Some (last (errlog ?s))) \<and> (r \<noteq> None \<longleftrightarrow> fl') \<and> r = LastError l'"
    if "st = (\<forall>p \<in> set (pcs ?s). \<exists>c. p = Stopped c)"
      and "ok' = (\<forall>p \<in> set (pcs ?s). p = Stopped ByDeadline \<or> p = Stopped ByCanceled \<or> p = Stopped ByQueryLimit)"
      and "ex' = (\<exists>p \<in> set (pcs ?s). p = Stopped ByRateError \<or> p = Stopped ByCallbackError)"
      and "fl' = (IsRateError l' \<or> IsCallbackError l')"
    for st ok' ex' fl'
    using st ok ex log fl le that by (simp split: if_splits)
  have tie: "pcs ?s ! (i - 1) = Stopped c \<longleftrightarrow> (\<exists>ob \<in> set ?obs. stop_of ob = (i, c))"
    if "1 \<le> i \<and> i \<le> unat (Concurrency o')" for i c
  proof -
    from that f have k: "i - 1 < length (pcs (Run_begin l t0))" and si: "Suc (i - 1) = i"
      by (auto simp: Run_begin_fields)
    from k have "pcs (Run_begin l t0) ! (i - 1) = AtWait" by (simp add: Run_begin_fields)
    with stopped_run [OF k, of sched c] show ?thesis by (simp only: si) simp
  qed
  have elog: "errlog ?s = failures ?obs"
    using observed_run(1) [of sched "Run_begin l t0"] by (simp add: Run_begin_fields)
  have last: "r = (if failures ?obs = [] then None else Some (last (failures ?obs)))"
    using observed_run(2) [of sched "Run_begin l t0"] r f by (simp add: Run_begin_fields)
  have nil: "r = None"
    if "(\<forall>i err. GateFailed i err \<in> set ?obs \<longrightarrow> deadline_shaped err \<or> err = Canceled) \<and>
        (\<forall>i err. CallbackFailed i err \<notin> set ?obs)"
    using that last failures_Nil_iff [of ?obs] by simp
  have non: "r \<noteq> None \<longleftrightarrow>
      (\<exists>i err. GateFailed i err \<in> set ?obs \<and> \<not> deadline_shaped err \<and> err \<noteq> Canceled) \<or>
      (\<exists>i err. CallbackFailed i err \<in> set ?obs)"
  proof -
    have "r \<noteq> None \<longleftrightarrow> failures ?obs \<noteq> []" using last by simp
    then show ?thesis by (simp only: failures_Nil_iff) blast
  qed
  have lst: "r = Some (last (failures ?obs))" if "r \<noteq> None"
    using that last by (simp split: if_splits)
  have d: "IsDeadline l' \<longleftrightarrow> (\<exists>i err. GateFailed i err \<in> set ?obs \<and> deadline_shaped err)"
    using observed_run(3) [of sched "Run_begin l t0"] f l'
    by (simp add: Run_begin_fields IsDeadline_def observed_causes)
  have c: "IsCanceled l' \<longleftrightarrow> (\<exists>i. GateFailed i Canceled \<in> set ?obs)"
    using observed_run(4) [of sched "Run_begin l t0"] f l'
    by (simp add: Run_begin_fields IsCanceled_def observed_causes)
  have q: "IsQueryLimit l' \<longleftrightarrow> (\<exists>i. LimitReached i \<in> set ?obs)"
    using observed_run(5) [of sched "Run_begin l t0"] f l'
    by (simp add: Run_begin_fields IsQueryLimit_def observed_causes)
  have re: "IsRateError l' \<longleftrightarrow>
      (\<exists>i err. GateFailed i err \<in> set ?obs \<and> \<not> deadline_shaped err \<and> err \<noteq> Canceled)"
    using observed_run(6) [of sched "Run_begin l t0"] f l'
    by (simp add: Run_begin_fields IsRateError_def observed_causes)
  have ce: "IsCallbackError l' \<longleftrightarrow> (\<exists>i err. CallbackFailed i err \<in> set ?obs)"
    using observed_run(7) [of sched "Run_begin l t0"] f l'
    by (simp add: Run_begin_fields IsCallbackError_def observed_causes)
  have gs: "(i, Some err) \<in> set sched" if "GateFailed i err \<in> set ?obs" for i err
    using that by (rule observations_sources(1))
  have cs: "\<exists>cb cbp. Callback o' = Some cb \<and> GroupID cbp = int i \<and> cb cbp = Some err"
    if "CallbackFailed i err \<in> set ?obs" for i err
    using observations_sources(2) [OF that] f by (simp add: Run_begin_fields)
  have quiet: "r = None"
    if "(\<forall>i err. (i, Some err) \<in> set sched \<longrightarrow> deadline_shaped err \<or> err = Canceled) \<and>
        (\<forall>cb cbp. Callback o' = Some cb \<longrightarrow> cb cbp = None)"
  proof (rule nil, intro conjI allI impI)
    fix i err
    assume "GateFailed i err \<in> set ?obs"
    then have "(i, Some err) \<in> set sched" by (rule gs)
    with that show "deadline_shaped err \<or> err = Canceled" by blast
  next
    fix i err
    show "CallbackFailed i err \<notin> set ?obs"
    proof
      assume "CallbackFailed i err \<in> set ?obs"
      from cs [OF this] that show False by auto
    qed
  qed
  from labels [OF refl refl refl refl] tie elog nil non lst d c q re ce gs cs quiet
  show ?thesis by (intro conjI allI impI) blast+
qed

theorem Run_returns_last_error_witness:
  "New (mk_options 3 0 5 None) = Inr (sample_limiter 3 0 5 None) \<and>
   observations expected_stops_schedule (Run_begin (sample_limiter 3 0 5 None) 0) =
     [GateFailed 1 DeadlineExceeded, GateFailed 2 Canceled,
      GateFailed 3 (Error ''rate: Wait(n=1) would exceed context deadline'')] \<and>
   deadline_shaped DeadlineExceeded \<and>
   deadline_shaped (Error ''rate: Wait(n=1) would exceed context deadline'') \<and>
   \<not> deadline_shaped Canceled \<and>
   map_option fst (Run (sample_limiter 3 0 5 None) 0 expected_stops_schedule 9) = Some None \<and>
   pcs (run_workers expected_stops_schedule (Run_begin (sample_limiter 3 0 5 None) 0))
     = [Stopped ByDeadline, Stopped ByCanceled, Stopped ByDeadline] \<and>
   LastError (snd (the (Run (sample_limiter 3 0 5 None) 0 expected_stops_schedule 9))) = None \<and>
   IsDeadline (snd (the (Run (sample_limiter 3 0 5 None) 0 expected_stops_schedule 9))) \<and>
   IsCanceled (snd (the (Run (sample_limiter 3 0 5 None) 0 expected_stops_schedule 9))) \<and>
   \<not> IsQueryLimit (snd (the (Run (sample_limiter 3 0 5 None) 0 expected_stops_schedule 9))) \<and>
   \<not> IsRateError (snd (the (Run (sample_limiter 3 0 5 None) 0 expected_stops_schedule 9))) \<and>
   \<not> IsCallbackError (snd (the (Run (sample_limiter 3 0 5 None) 0 expected_stops_schedule 9))) \<and>
   New (mk_options 2 2 0 (Some fails_by_group)) = Inr (sample_limiter 2 2 0 (Some fails_by_group)) \<and>
   observations gate_then_callback_schedule
       (Run_begin (sample_limiter 2 2 0 (Some fails_by_group)) 0) =
     [GateFailed 1 (Error ''gate broke''), CallbackFailed 2 (Error ''two'')] \<and>
   \<not> deadline_shaped (Error ''gate broke'') \<and>
   failures (observations gate_then_callback_schedule
               (Run_begin (sample_limiter 2 2 0 (Some fails_by_group)) 0)) =
     [Error ''gate broke'', Error ''two''] \<and>
   map_option fst (Run (sample_limiter 2 2 0 (Some fails_by_group)) 0 gate_then_callback_schedule 9)
     = Some (Some (Error ''two'')) \<and>
   errlog (run_workers gate_then_callback_schedule
             (Run_begin (sample_limiter 2 2 0 (Some fails_by_group)) 0))
     = [Error ''gate broke'', Error ''two''] \<and>
   pcs (run_workers gate_then_callback_schedule
          (Run_begin (sample_limiter 2 2 0 (Some fails_by_group)) 0))
     = [Stopped ByRateError, Stopped ByCallbackError] \<and>
   Some (Error ''two'') =
     Some (last (errlog (run_workers gate_then_callback_schedule
                           (Run_begin (sample_limiter 2 2 0 (Some fails_by_group)) 0)))) \<and>
   Some (Error ''two'') =
     LastError (snd (the (Run (sample_limiter 2 2 0 (Some fails_by_group)) 0
                            gate_then_callback_schedule 9))) \<and>
   IsRateError (snd (the (Run (sample_limiter 2 2 0 (Some fails_by_group)) 0
                            gate_then_callback_schedule 9))) \<and>
   IsCallbackError (snd (the (Run (sample_limiter 2 2 0 (Some fails_by_group)) 0
                                gate_then_callback_schedule 9))) \<and>
   \<not> IsDeadline (snd (the (Run (sample_limiter 2 2 0 (Some fails_by_group)) 0
                              gate_then_callback_schedule 9))) \<and>
   observations (replicate 7 (1, None)) (Run_begin (sample_limiter 1 1 0 None) 0) =
     [LimitReached 1] \<and>
   pcs (run_workers (replicate 7 (1, None)) (Run_begin (sample_limiter 1 1 0 None) 0))
     = [Stopped ByQueryLimit] \<and>
   map_option fst (Run (sample_limiter 1 1 0 None) 0 (replicate 7 (1, None)) 9) = Some None \<and>
   LastError (snd (the (Run (sample_limiter 1 1 0 None) 0 (replicate 7 (1, None)) 9))) = None \<and>
   IsQueryLimit (snd (the (Run (sample_limiter 1 1 0 None) 0 (replicate 7 (1, None)) 9)))"
proof -
  let ?lA = "sample_limiter 3 0 5 None"
  let ?rA = "Run ?lA 0 expected_stops_schedule 9"
  have nA: "New (mk_options 3 0 5 None) = Inr ?lA"
    by (rule New_sample) code_simp
  have oA: "observations expected_stops_schedule (Run_begin ?lA 0) =
     [GateFailed 1 DeadlineExceeded, GateFailed 2 Canceled,
      GateFailed 3 (Error ''rate: Wait(n=1) would exceed context deadline'')]"
    by code_simp
  have dA: "deadline_shaped DeadlineExceeded"
    "deadline_shaped (Error ''rate: Wait(n=1) would exceed context deadline'')"
    "\<not> deadline_shaped Canceled"
    by code_simp+
  have wA: "map_option fst ?rA = Some None"
    by code_simp
  have pA: "pcs (run_workers expected_stops_schedule (Run_begin ?lA 0))
     = [Stopped ByDeadline, Stopped ByCanceled, Stopped ByDeadline]"
    by code_simp
  note tA = Run_returns_last_error [OF nA Run_eq_SomeI [OF wA]]
  let ?oA = "observations expected_stops_schedule (Run_begin ?lA 0)"
  from tA have "None = LastError (snd (the ?rA))"
    and "IsDeadline (snd (the ?rA)) \<longleftrightarrow>
           (\<exists>i err. GateFailed i err \<in> set ?oA \<and> deadline_shaped err)"
    and "IsCanceled (snd (the ?rA)) \<longleftrightarrow> (\<exists>i. GateFailed i Canceled \<in> set ?oA)"
    and "IsQueryLimit (snd (the ?rA)) \<longleftrightarrow> (\<exists>i. LimitReached i \<in> set ?oA)"
    and "IsRateError (snd (the ?rA)) \<longleftrightarrow>
           (\<exists>i err. GateFailed i err \<in> set ?oA \<and> \<not> deadline_shaped err \<and> err \<noteq> Canceled)"
    and "IsCallbackError (snd (the ?rA)) \<longleftrightarrow> (\<exists>i err. CallbackFailed i err \<in> set ?oA)"
    by - (elim conjE, assumption)+
  with dA have fA: "LastError (snd (the ?rA)) = None" "IsDeadline (snd (the ?rA))"
    "IsCanceled (snd (the ?rA))" "\<not> IsQueryLimit (snd (the ?rA))"
    "\<not> IsRateError (snd (the ?rA))" "\<not> IsCallbackError (snd (the ?rA))"
    unfolding oA by auto
  let ?lB = "sample_limiter 2 2 0 (Some fails_by_group)"
  let ?rB = "Run ?lB 0 gate_then_callback_schedule 9"
  have nB: "New (mk_options 2 2 0 (Some fails_by_group)) = Inr ?lB"
    by (rule New_sample) code_simp
  have oB: "observations gate_then_callback_schedule (Run_begin ?lB 0) =
     [GateFailed 1 (Error ''gate broke''), CallbackFailed 2 (Error ''two'')]"
    by code_simp
  have dB: "\<not> deadline_shaped (Error ''gate broke'')"
    by code_simp
  have flB: "failures (observations gate_then_callback_schedule (Run_begin ?lB 0)) =
     [Error ''gate broke'', Error ''two'']"
    by code_simp
  have wB: "map_option fst ?rB = Some (Some (Error ''two''))"
    by code_simp
  have eB: "errlog (run_workers gate_then_callback_schedule (Run_begin ?lB 0))
     = [Error ''gate broke'', Error ''two'']"
    by code_simp
  have pB: "pcs (run_workers gate_then_callback_schedule (Run_begin ?lB 0))
     = [Stopped ByRateError, Stopped ByCallbackError]"
    by code_simp
  note tB = Run_returns_last_error [OF nB Run_eq_SomeI [OF wB]]
  let ?oB = "observations gate_then_callback_schedule (Run_begin ?lB 0)"
  from tB have "Some (Error ''two'') \<noteq> None \<longrightarrow> Some (Error ''two'') =
      Some (last (errlog (run_workers gate_then_callback_schedule (Run_begin ?lB 0))))"
    and "Some (Error ''two'') = LastError (snd (the ?rB))"
    and "IsDeadline (snd (the ?rB)) \<longleftrightarrow>
           (\<exists>i err. GateFailed i err \<in> set ?oB \<and> deadline_shaped err)"
    and "IsRateError (snd (the ?rB)) \<longleftrightarrow>
           (\<exists>i err. GateFailed i err \<in> set ?oB \<and> \<not> deadline_shaped err \<and> err \<noteq> Canceled)"
    and "IsCallbackError (snd (the ?rB)) \<longleftrightarrow> (\<exists>i err. CallbackFailed i err \<in> set ?oB)"
    by - (elim conjE, assumption)+
  with dB have fB: "Some (Error ''two'') =
      Some (last (errlog (run_workers gate_then_callback_schedule (Run_begin ?lB 0))))"
    "Some (Error ''two'') = LastError (snd (the ?rB))"
    "IsRateError (snd (the ?rB))" "IsCallbackError (snd (the ?rB))"
    "\<not> IsDeadline (snd (the ?rB))"
    unfolding oB by auto
  let ?lC = "sample_limiter 1 1 0 None"
  let ?rC = "Run ?lC 0 (replicate 7 (1, None)) 9"
  have nC: "New (mk_options 1 1 0 None) = Inr ?lC"
    by (rule New_sample) code_simp
  have oC: "observations (replicate 7 (1, None)) (Run_begin ?lC 0) = [LimitReached 1]"
    by code_simp
  have wC: "map_option fst ?rC = Some None"
    by code_simp
  have pC: "pcs (run_workers (replicate 7 (1, None)) (Run_begin ?lC 0)) = [Stopped ByQueryLimit]"
    by code_simp
  note tC = Run_returns_last_error [OF nC Run_eq_SomeI [OF wC]]
  let ?oC = "observations (replicate 7 (1, None)) (Run_begin ?lC 0)"
  from tC have "None = LastError (snd (the ?rC))"
    and "IsQueryLimit (snd (the ?rC)) \<longleftrightarrow> (\<exists>i. LimitReached i \<in> set ?oC)"
    by - (elim conjE, assumption)+
  then have fC: "LastError (snd (the ?rC)) = None" "IsQueryLimit (snd (the ?rC))"
    unfolding oC by auto
  from nA oA dA wA pA fA nB oB dB flB wB eB pB fB oC pC wC fC show ?thesis
    by (intro conjI) assumption+
qed

text \<open>
  Claim C10. \<open>New\<close> does not look at the callback: options with a nil callback that
  pass the two checks are accepted. In a run of such a limiter the callback-error flag
  is never set and no goroutine leaves by the callback exit; a goroutine at the callback
  moves on to the next wait with nothing else changed (the nil function is not called);
  and an iteration of a goroutine that the gate admits, with the limit not reached at
  its check, adds 1 to its own slot and 1 to the total and is back at the gate.
\<close>

theorem nil_callback_run:
  assumes "Callback o' = None"
  shows "(\<not> ((0 < Limit o' \<and> Limit o' < Concurrency o') \<or> (Limit o' = 0 \<and> Duration o' = 0))
            \<longrightarrow> (\<exists>l. New o' = Inr l)) \<and>
         (New o' = Inr l \<longrightarrow>
            \<not> IsCallbackError (limiter (run_workers sched (Run_begin l t0))) \<and>
            (\<forall>p \<in> set (pcs (run_workers sched (Run_begin l t0))). p \<noteq> Stopped ByCallbackError) \<and>
            (1 \<le> i \<and> i \<le> unat (Concurrency o') \<and>
             pcs (run_workers sched (Run_begin l t0)) ! (i - 1) = AtCallback \<longrightarrow>
               worker_step (i, g) (run_workers sched (Run_begin l t0)) =
                 goto i AtWait (run_workers sched (Run_begin l t0))) \<and>
            (1 \<le> i \<and> i \<le> unat (Concurrency o') \<and>
             pcs (run_workers sched (Run_begin l t0)) ! (i - 1) = AtWait \<and>
             \<not> (0 < Limit o' \<and>
                Limit o' \<le> counters (limiter (run_workers sched (Run_begin l t0))) ! 0) \<longrightarrow>
               run_workers (replicate 5 (i, None)) (run_workers sched (Run_begin l t0)) =
                 (run_workers sched (Run_begin l t0))
                   \<lparr>limiter := (limiter (run_workers sched (Run_begin l t0)))
                      \<lparr>counters := (counters (limiter (run_workers sched (Run_begin l t0))))
                         [i := counters (limiter (run_workers sched (Run_begin l t0))) ! i + 1,
                          0 := counters (limiter (run_workers sched (Run_begin l t0))) ! 0 + 1]\<rparr>\<rparr>))"
proof -
  have a: "\<exists>l. New o' = Inr l"
    if "\<not> ((0 < Limit o' \<and> Limit o' < Concurrency o') \<or> (Limit o' = 0 \<and> Duration o' = 0))"
    using that by (auto simp: New_def Let_def)
  let ?s = "run_workers sched (Run_begin l t0)"
  have b: "\<not> IsCallbackError (limiter ?s) \<and>
            (\<forall>p \<in> set (pcs ?s). p \<noteq> Stopped ByCallbackError) \<and>
            (1 \<le> i \<and> i \<le> unat (Concurrency o') \<and> pcs ?s ! (i - 1) = AtCallback \<longrightarrow>
               worker_step (i, g) ?s = goto i AtWait ?s) \<and>
            (1 \<le> i \<and> i \<le> unat (Concurrency o') \<and> pcs ?s ! (i - 1) = AtWait \<and>
             \<not> (0 < Limit o' \<and> Limit o' \<le> counters (limiter ?s) ! 0) \<longrightarrow>
               run_workers (replicate 5 (i, None)) ?s =
                 ?s\<lparr>limiter := (limiter ?s)\<lparr>counters := (counters (limiter ?s))
                         [i := counters (limiter ?s) ! i + 1,
                          0 := counters (limiter ?s) ! 0 + 1]\<rparr>\<rparr>)"
    if n: "New o' = Inr l"
  proof -
    note f = New_fields [OF n]
    have cb: "callback (limiter ?s) = None"
      using f assms by (simp add: run_workers_frame Run_begin_fields)
    have len: "length (pcs ?s) = unat (Concurrency o')"
      using f by (simp add: run_workers_frame Run_begin_fields)
    have lim: "limit (limiter ?s) = Limit o'"
      using f by (simp add: run_workers_frame Run_begin_fields)
    have z: "count_pcs (\<lambda>p. p = Stopped ByCallbackError) ?s = 0"
      using f assms by (intro no_callback_error_run) simp
    have "errors_logged ?s" using f by (intro errors_logged_run) simp_all
    with z have 1: "\<not> IsCallbackError (limiter ?s)"
      by (simp add: errors_logged_def IsCallbackError_def)
    from z have 2: "\<forall>p \<in> set (pcs ?s). p \<noteq> Stopped ByCallbackError"
      by (simp add: count_pcs_zero_iff)
    have 3: "worker_step (i, g) ?s = goto i AtWait ?s"
      if "1 \<le> i \<and> i \<le> unat (Concurrency o') \<and> pcs ?s ! (i - 1) = AtCallback"
      using that cb len by (intro nil_callback_step) simp_all
    have 4: "run_workers (replicate 5 (i, None)) ?s =
                 ?s\<lparr>limiter := (limiter ?s)\<lparr>counters := (counters (limiter ?s))
                         [i := counters (limiter ?s) ! i + 1,
                          0 := counters (limiter ?s) ! 0 + 1]\<rparr>\<rparr>"
      if "1 \<le> i \<and> i \<le> unat (Concurrency o') \<and> pcs ?s ! (i - 1) = AtWait \<and>
             \<not> (0 < Limit o' \<and> Limit o' \<le> counters (limiter ?s) ! 0)"
      using that cb len lim by (intro nil_callback_iteration) simp_all
    from 1 2 3 4 show ?thesis by blast
  qed
  from a b show ?thesis by blast
qed


theorem nil_callback_run_witness:
  "Callback (mk_options 1 0 5 None) = None \<and>
   New (mk_options 1 0 5 None) = Inr (sample_limiter 1 0 5 None) \<and>
   pcs (run_workers [] (Run_begin (sample_limiter 1 0 5 None) 0)) ! (1 - 1) = AtWait \<and>
   run_workers (replicate 5 (1, None)) (run_workers [] (Run_begin (sample_limiter 1 0 5 None) 0)) =
     (run_workers [] (Run_begin (sample_limiter 1 0 5 None) 0))
       \<lparr>limiter := (limiter (run_workers [] (Run_begin (sample_limiter 1 0 5 None) 0)))
          \<lparr>counters := [1, 1]\<rparr>\<rparr> \<and>
   pcs (run_workers (replicate 4 (1, None)) (Run_begin (sample_limiter 1 0 5 None) 0)) ! (1 - 1)
     = AtCallback \<and>
   worker_step (1, None)
       (run_workers (replicate 4 (1, None)) (Run_begin (sample_limiter 1 0 5 None) 0)) =
     goto 1 AtWait
       (run_workers (replicate 4 (1, None)) (Run_begin (sample_limiter 1 0 5 None) 0)) \<and>
   \<not> IsCallbackError
       (limiter (run_workers (replicate 10 (1, None)) (Run_begin (sample_limiter 1 0 5 None) 0))) \<and>
   counters (limiter (run_workers (replicate 10 (1, None)) (Run_begin (sample_limiter 1 0 5 None) 0)))
     = [2, 2]"
proof -
  have c: "Callback (mk_options 1 0 5 None) = None" by (simp add: mk_options_def)
  have n: "New (mk_options 1 0 5 None) = Inr (sample_limiter 1 0 5 None)"
    by (rule New_sample) code_simp
  have o: "unat (Concurrency (mk_options 1 0 5 None)) = 1" "Limit (mk_options 1 0 5 None) = 0"
    by (simp_all add: mk_options_def)
  have p0: "pcs (run_workers [] (Run_begin (sample_limiter 1 0 5 None) 0)) ! (1 - 1) = AtWait"
    by code_simp
  have c0: "counters (limiter (Run_begin (sample_limiter 1 0 5 None) 0)) = [0, 0]"
    by code_simp
  have p4: "pcs (run_workers (replicate 4 (1, None)) (Run_begin (sample_limiter 1 0 5 None) 0)) ! (1 - 1)
     = AtCallback"
    by code_simp
  have c10: "counters (limiter (run_workers (replicate 10 (1, None))
      (Run_begin (sample_limiter 1 0 5 None) 0))) = [2, 2]"
    by code_simp
  from nil_callback_run [OF c, of "sample_limiter 1 0 5 None" "[]" 0 1 None] n o p0
  have i: "run_workers (replicate 5 (1, None)) (run_workers [] (Run_begin (sample_limiter 1 0 5 None) 0)) =
     (run_workers [] (Run_begin (sample_limiter 1 0 5 None) 0))
       \<lparr>limiter := (limiter (run_workers [] (Run_begin (sample_limiter 1 0 5 None) 0)))
          \<lparr>counters := [1, 1]\<rparr>\<rparr>"
    by (simp add: c0)
  from nil_callback_run [OF c, of "sample_limiter 1 0 5 None" "replicate 4 (1, None)" 0 1 None] n o p4
  have s: "worker_step (1, None)
       (run_workers (replicate 4 (1, None)) (Run_begin (sample_limiter 1 0 5 None) 0)) =
     goto 1 AtWait
       (run_workers (replicate 4 (1, None)) (Run_begin (sample_limiter 1 0 5 None) 0))"
    by simp
  from nil_callback_run [OF c, of "sample_limiter 1 0 5 None" "replicate 10 (1, None)" 0 1 None] n
  have f: "\<not> IsCallbackError
       (limiter (run_workers (replicate 10 (1, None)) (Run_begin (sample_limiter 1 0 5 None) 0)))"
    by simp
  from c n p0 i p4 s f c10 show ?thesis by blast
qed

text \<open>
  Claim C5, as amended. For a limiter built by \<open>New\<close> with concurrency N above 0 and a
  callback that fails at every call, in a run in which the gate admits every wait:
  \<open>Run\<close> returns once every goroutine has had five turns; and when it returns, every
  goroutine has stopped on its callback error, \<open>IsCallbackError\<close> holds, the error
  returned is not nil, is one the callback returns and is what \<open>LastError\<close> reads, the
  total is N and the slot of each goroutine is 1.
\<close>

theorem failing_callback_run:
  assumes "New o' = Inr l" and "Callback o' = Some cb" and "\<forall>cbp. cb cbp \<noteq> None"
    and "0 < Concurrency o'" and "\<forall>ev \<in> set sched. snd ev = None"
  shows "((\<forall>i. 1 \<le> i \<and> i \<le> unat (Concurrency o') \<longrightarrow> 5 \<le> turns i sched) \<longrightarrow>
            Run l t0 sched t1 \<noteq> None) \<and>
         (Run l t0 sched t1 = Some (r, l') \<longrightarrow>
            IsCallbackError l' \<and> LastError l' = r \<and> r \<noteq> None \<and> (\<exists>cbp. cb cbp = r) \<and>
            NumOfQueries l' = Inr (uint (Concurrency o')) \<and>
            (\<forall>i. 1 \<le> i \<and> i \<le> unat (Concurrency o') \<longrightarrow>
               NumOfQueriesByGroupID l' (int i) = Inr 1) \<and>
            pcs (run_workers sched (Run_begin l t0)) =
              replicate (unat (Concurrency o')) (Stopped ByCallbackError))"
proof -
  let ?s = "run_workers sched (Run_begin l t0)"
  note f = New_fields [OF assms(1)]
  have len: "length (pcs ?s) = unat (Concurrency o')"
    using f by (simp add: run_workers_frame Run_begin_fields)
  have wgc: "wg_counts ?s" using f by (intro wg_counts_run) simp
  have a: "Run l t0 sched t1 \<noteq> None"
    if "\<forall>i. 1 \<le> i \<and> i \<le> unat (Concurrency o') \<longrightarrow> 5 \<le> turns i sched"
  proof -
    have "count_pcs running ?s = 0"
      using assms(1,2,3,5) that by (rule fair_schedule_stops)
    with wgc have "wg (limiter ?s) = 0" by (simp add: wg_counts_def)
    then show ?thesis by (simp add: Run_def Run_end_def Let_def)
  qed
  have b: "IsCallbackError l' \<and> LastError l' = r \<and> r \<noteq> None \<and> (\<exists>cbp. cb cbp = r) \<and>
            NumOfQueries l' = Inr (uint (Concurrency o')) \<and>
            (\<forall>i. 1 \<le> i \<and> i \<le> unat (Concurrency o') \<longrightarrow>
               NumOfQueriesByGroupID l' (int i) = Inr 1) \<and>
            pcs ?s = replicate (unat (Concurrency o')) (Stopped ByCallbackError)"
    if run: "Run l t0 sched t1 = Some (r, l')"
  proof -
    have r: "r = lastError (limiter ?s)"
      and l': "l' = (limiter ?s)\<lparr>since := t1 - t0, done_flag := True\<rparr>"
      using Run_SomeD [OF run] by simp_all
    have stopped: "count_pcs running ?s = 0"
      using f(7) run by (rule Run_all_stopped)
    have adm: "admitted_only cb ?s"
      using assms(1,2,3,5) by (rule admitted_only_run)
    have os: "one_shot ?s" using assms(1-3) by (rule one_shot_run)
    have el: "errors_logged ?s" using f by (intro errors_logged_run) simp_all
    have all: "\<forall>p \<in> set (pcs ?s). p = Stopped ByCallbackError"
      using stopped adm by (auto simp: admitted_only_def count_pcs_zero_iff)
    then have pcs: "pcs ?s = replicate (unat (Concurrency o')) (Stopped ByCallbackError)"
      using len by (metis replicate_eqI)
    have n: "0 < unat (Concurrency o')"
      using assms(4) by (simp add: word_less_nat_alt)
    have cnt: "count_pcs P ?s = (if P (Stopped ByCallbackError) then unat (Concurrency o') else 0)" for P
      by (simp add: count_pcs_def pcs)
    have 1: "IsCallbackError l'"
      using el n l' by (simp add: errors_logged_def cnt IsCallbackError_def)
    have 2: "LastError l' = r" using r l' by (simp add: LastError_def)
    have ne: "errlog ?s \<noteq> []"
      using el n by (auto simp: errors_logged_def cnt)
    then have 3: "r = Some (last (errlog ?s))"
      using el r by (simp add: errors_logged_def)
    have "last (errlog ?s) \<in> set (errlog ?s)" using ne by simp
    then have 4: "\<exists>cbp. cb cbp = Some (last (errlog ?s))"
      using adm by (auto simp: admitted_only_def list_all_iff)
    have "unat (counters (limiter ?s) ! 0) = unat (Concurrency o')"
      using os by (simp add: one_shot_def cnt)
    then have "counters (limiter ?s) ! 0 = Concurrency o'" by (rule word_unat_eq_iff [THEN iffD2])
    moreover have "counters (limiter ?s) \<noteq> []" using os by (simp add: one_shot_def)
    ultimately have 5: "NumOfQueries l' = Inr (uint (Concurrency o'))"
      using l' by (simp add: NumOfQueries_def slice_index_def)
    have own: "own_slot ?s" using assms(1-3) by (rule own_slot_run)
    have sh: "length (counters (limiter ?s)) = unat (Concurrency o') + 1"
      using shape_run [of sched l t0] len by (simp add: shape_def)
    have 6: "NumOfQueriesByGroupID l' (int i) = Inr 1"
      if i: "1 \<le> i \<and> i \<le> unat (Concurrency o')" for i
    proof -
      from i len have k: "i - 1 < length (pcs ?s)" and si: "Suc (i - 1) = i" by auto
      from own k have "counters (limiter ?s) ! Suc (i - 1) =
          (if past_own (pcs ?s ! (i - 1)) then 1 else 0)"
        by (simp add: own_slot_def)
      moreover have "pcs ?s ! (i - 1) = Stopped ByCallbackError"
        using all k by simp
      ultimately have "counters (limiter ?s) ! Suc (i - 1) = 1" by simp
      then have "counters (limiter ?s) ! i = 1" by (simp only: si)
      moreover from i have "i \<le> unat (Concurrency o')" by simp
      then have "int i \<le> int (unat (Concurrency o'))" by (simp only: of_nat_le_iff)
      then have "int i \<le> uint (Concurrency o')" by simp
      ultimately show ?thesis
        using i sh l' by (simp add: NumOfQueriesByGroupID_def slice_index_def)
    qed
    from 1 2 3 4 5 6 pcs show ?thesis by simp
  qed
  from a b show ?thesis by blast
qed


theorem failing_callback_run_witness:
  "New (mk_options 2 2 0 (Some (always_fails (Error ''boom'')))) =
     Inr (sample_limiter 2 2 0 (Some (always_fails (Error ''boom'')))) \<and>
   Callback (mk_options 2 2 0 (Some (always_fails (Error ''boom'')))) =
     Some (always_fails (Error ''boom'')) \<and>
   0 < Concurrency (mk_options 2 2 0 (Some (always_fails (Error ''boom'')))) \<and>
   turns 1 (replicate 5 (1, None) @ replicate 5 (2, None)) = 5 \<and>
   turns 2 (replicate 5 (1, None) @ replicate 5 (2, None)) = 5 \<and>
   map_option fst (Run (sample_limiter 2 2 0 (Some (always_fails (Error ''boom'')))) 0
                     (replicate 5 (1, None) @ replicate 5 (2, None)) 9)
     = Some (Some (Error ''boom'')) \<and>
   IsCallbackError (snd (the (Run (sample_limiter 2 2 0 (Some (always_fails (Error ''boom'')))) 0
                                (replicate 5 (1, None) @ replicate 5 (2, None)) 9))) \<and>
   LastError (snd (the (Run (sample_limiter 2 2 0 (Some (always_fails (Error ''boom'')))) 0
                          (replicate 5 (1, None) @ replicate 5 (2, None)) 9)))
     = Some (Error ''boom'') \<and>
   NumOfQueries (snd (the (Run (sample_limiter 2 2 0 (Some (always_fails (Error ''boom'')))) 0
                             (replicate 5 (1, None) @ replicate 5 (2, None)) 9)))
     = Inr 2 \<and>
   NumOfQueriesByGroupID
     (snd (the (Run (sample_limiter 2 2 0 (Some (always_fails (Error ''boom'')))) 0
                  (replicate 5 (1, None) @ replicate 5 (2, None)) 9))) 2
     = Inr 1"
proof -
  let ?o = "mk_options 2 2 0 (Some (always_fails (Error ''boom'')))"
  let ?l = "sample_limiter 2 2 0 (Some (always_fails (Error ''boom'')))"
  let ?sched = "replicate 5 (1, None) @ replicate 5 (2, None) :: event list"
  have n: "New ?o = Inr ?l" by (rule New_sample) code_simp
  have c: "Callback ?o = Some (always_fails (Error ''boom''))" by (simp add: mk_options_def)
  have af: "\<forall>cbp. always_fails (Error ''boom'') cbp \<noteq> None" by (simp add: always_fails_def)
  have p: "0 < Concurrency ?o" by (simp add: mk_options_def)
  have g: "\<forall>ev \<in> set ?sched. snd ev = None" by auto
  have t1: "turns 1 ?sched = 5" and t2: "turns 2 ?sched = 5" by (simp_all add: turns_def)
  have u: "unat (Concurrency ?o) = 2" by (simp add: mk_options_def)
  have t: "\<forall>i. 1 \<le> i \<and> i \<le> unat (Concurrency ?o) \<longrightarrow> 5 \<le> turns i ?sched"
  proof (intro allI impI)
    fix i :: nat
    assume "1 \<le> i \<and> i \<le> unat (Concurrency ?o)"
    with u have "i = 1 \<or> i = 2" by auto
    with t1 t2 show "5 \<le> turns i ?sched" by auto
  qed
  from failing_callback_run [OF n c af p g, of 0 9] t
  obtain r l' where run: "Run ?l 0 ?sched 9 = Some (r, l')"
    by (cases "Run ?l 0 ?sched 9") auto
  from failing_callback_run [OF n c af p g, of 0 9 r l'] run
  have "IsCallbackError l'" and "LastError l' = r" and "\<exists>cbp. always_fails (Error ''boom'') cbp = r"
    and "NumOfQueries l' = Inr (uint (Concurrency ?o))"
    and every: "\<forall>i. 1 \<le> i \<and> i \<le> unat (Concurrency ?o) \<longrightarrow>
                  NumOfQueriesByGroupID l' (int i) = Inr 1"
    by simp_all
  moreover from every [rule_format, of 2] u have "NumOfQueriesByGroupID l' 2 = Inr 1"
    by simp
  ultimately have "IsCallbackError l'" and "LastError l' = Some (Error ''boom'')"
    and "r = Some (Error ''boom'')" and "NumOfQueries l' = Inr 2"
    and "NumOfQueriesByGroupID l' 2 = Inr 1"
    by (auto simp: always_fails_def mk_options_def)
  with run n c p t1 t2 show ?thesis by simp
qed

text \<open>
  Claim C5 as stated fails when the gate does not admit a goroutine. With concurrency 1,
  no limit and a duration of 1 nanosecond the options are valid; the context has expired
  when the goroutine first waits, \<open>lim.Wait\<close> returns \<open>context.DeadlineExceeded\<close>, and
  \<open>Run\<close> returns nil with the total 0, the deadline flag set and no callback error.
\<close>

theorem failing_callback_deadline_counterexample:
  "New (mk_options 1 0 1 (Some (always_fails (Error ''boom'')))) =
     Inr (sample_limiter 1 0 1 (Some (always_fails (Error ''boom'')))) \<and>
   map_option fst (Run (sample_limiter 1 0 1 (Some (always_fails (Error ''boom'')))) 0
                     [(1, Some DeadlineExceeded)] 9) = Some None \<and>
   \<not> IsCallbackError (snd (the (Run (sample_limiter 1 0 1 (Some (always_fails (Error ''boom'')))) 0
                                  [(1, Some DeadlineExceeded)] 9))) \<and>
   IsDeadline (snd (the (Run (sample_limiter 1 0 1 (Some (always_fails (Error ''boom'')))) 0
                           [(1, Some DeadlineExceeded)] 9))) \<and>
   LastError (snd (the (Run (sample_limiter 1 0 1 (Some (always_fails (Error ''boom'')))) 0
                          [(1, Some DeadlineExceeded)] 9))) = None \<and>
   NumOfQueries (snd (the (Run (sample_limiter 1 0 1 (Some (always_fails (Error ''boom'')))) 0
                             [(1, Some DeadlineExceeded)] 9))) = Inr 0"
proof -
  have n: "New (mk_options 1 0 1 (Some (always_fails (Error ''boom'')))) =
     Inr (sample_limiter 1 0 1 (Some (always_fails (Error ''boom''))))"
    by (rule New_sample) code_simp
  have a: "map_option fst (Run (sample_limiter 1 0 1 (Some (always_fails (Error ''boom'')))) 0
                     [(1, Some DeadlineExceeded)] 9) = Some None"
    by code_simp
  have b: "\<not> IsCallbackError (snd (the (Run (sample_limiter 1 0 1 (Some (always_fails (Error ''boom'')))) 0
                                  [(1, Some DeadlineExceeded)] 9)))"
    by code_simp
  have c: "IsDeadline (snd (the (Run (sample_limiter 1 0 1 (Some (always_fails (Error ''boom'')))) 0
                           [(1, Some DeadlineExceeded)] 9)))"
    by code_simp
  have d: "LastError (snd (the (Run (sample_limiter 1 0 1 (Some (always_fails (Error ''boom'')))) 0
                          [(1, Some DeadlineExceeded)] 9))) = None"
    by code_simp
  have e: "NumOfQueries (snd (the (Run (sample_limiter 1 0 1 (Some (always_fails (Error ''boom'')))) 0
                             [(1, Some DeadlineExceeded)] 9))) = Inr 0"
    by code_simp
  from n a b c d e show ?thesis by blast
qed

end
